theory Spec2Isabelle
  imports Complex_Main "HOL-Library.Multiset"
begin

section \<open>Cards, decks and rank order (convex/games.js, lines 4-48)\<close>

text \<open>
  A card identifier is a two-character string, rank then suit. User and document
  identifiers are opaque and only ever compared for equality; they are modelled as
  natural numbers.
\<close>

type_synonym card = string
type_synonym user_id = nat
type_synonym doc_id = nat

definition RANKS :: "char list" where
  "RANKS = ''A23456789TJQK''"

definition SUITS :: "char list" where
  "SUITS = ''SHDC''"

text \<open>For play comparison: 2 highest, then A, K ... 3 lowest. Lower index = higher rank.\<close>

definition RANK_ORDER :: "char list" where
  "RANK_ORDER = ''2AKQJT9876543''"

text \<open>\<open>Array.prototype.findIndex\<close>, with \<open>None\<close> for the result -1.\<close>

fun findIndex :: "('a \<Rightarrow> bool) \<Rightarrow> 'a list \<Rightarrow> nat option" where
  "findIndex P [] = None"
| "findIndex P (x # xs) = (if P x then Some 0 else map_option Suc (findIndex P xs))"

text \<open>
  \<open>id[0]\<close>: the first character of a card identifier, \<open>None\<close> for the
  \<open>undefined\<close> that the empty string gives.
\<close>

definition rankOf :: "card \<Rightarrow> char option" where
  "rankOf c = (case c of [] \<Rightarrow> None | r # _ \<Rightarrow> Some r)"

text \<open>
  \<open>rankValue\<close>: the position in \<open>RANK_ORDER\<close>, 999 when the rank is not listed
  (also for \<open>undefined\<close> and \<open>null\<close>).
\<close>

definition rankValue :: "char option \<Rightarrow> nat" where
  "rankValue rank =
     (case rank of
        None \<Rightarrow> 999
      | Some r \<Rightarrow> (case findIndex (\<lambda>x. x = r) RANK_ORDER of None \<Rightarrow> 999 | Some i \<Rightarrow> i))"

text \<open>
  The deck count is a JavaScript number (\<open>v.number()\<close>, a double that is never
  rounded): a finite double is a rational number, and besides the finite values there
  are \<open>NaN\<close> and the two infinities.
\<close>

datatype js_number = Finite rat | NaN | Infinity | NegInfinity

text \<open>\<open>Math.max(1, x)\<close>, which is \<open>NaN\<close> when \<open>x\<close> is.\<close>

definition max_one :: "js_number \<Rightarrow> js_number" where
  "max_one x =
     (case x of
        Finite q \<Rightarrow> Finite (max 1 q)
      | NaN \<Rightarrow> NaN
      | Infinity \<Rightarrow> Infinity
      | NegInfinity \<Rightarrow> Finite 1)"

text \<open>The loop test \<open>d < deckCount\<close> for a counter \<open>d\<close>; every comparison with \<open>NaN\<close> is false.\<close>

definition below :: "nat \<Rightarrow> js_number \<Rightarrow> bool" where
  "below d x =
     (case x of
        Finite q \<Rightarrow> of_nat d < q
      | NaN \<Rightarrow> False
      | Infinity \<Rightarrow> True
      | NegInfinity \<Rightarrow> False)"

text \<open>The two inner loops of \<open>buildDeck\<close>: one copy of the 52 cards, suit by suit.\<close>

definition oneDeck :: "card list" where
  "oneDeck = concat (map (\<lambda>suit. map (\<lambda>rank. [rank, suit]) RANKS) SUITS)"

text \<open>
  The outer loop \<open>for (let d = 0; d < deckCount; d++)\<close>, with the counter \<open>d\<close> a
  natural number. It adds one copy of the deck per round, so a deck count of 1.5 gives
  two copies; for the deck count \<open>Infinity\<close> it never ends, and then \<open>buildDeck\<close>
  has no result (\<open>None\<close>).
\<close>

partial_function (option) buildDeck_loop ::
  "js_number \<Rightarrow> nat \<Rightarrow> card list \<Rightarrow> card list option" where
  "buildDeck_loop deckCount d deck =
     (if below d deckCount then buildDeck_loop deckCount (d + 1) (deck @ oneDeck)
      else Some deck)"

definition buildDeck :: "js_number \<Rightarrow> card list option" where
  "buildDeck deckCount = buildDeck_loop deckCount 0 []"

text \<open>
  \<open>shuffleArray\<close> (Fisher-Yates from the last index down to 1). The random source is
  a parameter: \<open>rnd i\<close> is the draw made at loop index \<open>i\<close>;
  \<open>Math.floor(Math.random() * (i + 1))\<close> always lies in \<open>0..i\<close>, which is
  obtained here by reducing the draw modulo \<open>i + 1\<close>.
\<close>

fun shuffle_loop :: "(nat \<Rightarrow> nat) \<Rightarrow> nat \<Rightarrow> 'a list \<Rightarrow> 'a list" where
  "shuffle_loop rnd 0 out = out"
| "shuffle_loop rnd (Suc k) out =
     (let i = Suc k; j = rnd i mod (i + 1)
      in shuffle_loop rnd k (out[i := out ! j, j := out ! i]))"

definition shuffleArray :: "(nat \<Rightarrow> nat) \<Rightarrow> 'a list \<Rightarrow> 'a list" where
  "shuffleArray rnd arr = shuffle_loop rnd (length arr - 1) arr"

text \<open>
  \<open>distributeEvenly\<close>: the loop over the seats \<open>p\<close>, carrying the running
  index \<open>idx\<close>; \<open>deck.slice(idx, idx + count)\<close> is \<open>take cnt (drop idx deck)\<close>.
\<close>

fun distribute_loop :: "'a list \<Rightarrow> nat \<Rightarrow> nat \<Rightarrow> nat list \<Rightarrow> nat \<Rightarrow> 'a list list" where
  "distribute_loop deck baseCount remainder [] idx = []"
| "distribute_loop deck baseCount remainder (p # ps) idx =
     (let cnt = baseCount + (if p < remainder then 1 else 0)
      in take cnt (drop idx deck) # distribute_loop deck baseCount remainder ps (idx + cnt))"

definition distributeEvenly :: "'a list \<Rightarrow> nat \<Rightarrow> 'a list list" where
  "distributeEvenly deck numPlayers =
     distribute_loop deck (length deck div numPlayers) (length deck mod numPlayers)
       [0..<numPlayers] 0"

section \<open>The stored documents\<close>

text \<open>
  The phases the handlers write and test. The fields \<open>deck\<close>, \<open>direction\<close> and
  \<open>lastAction\<close> of a game state are written once by \<open>startGame\<close> and never read
  or written by the four actions; they are left out.
\<close>

datatype phase = Play | RoundEnded | Exchange

text \<open>
  An exchange obligation \<open>{ fromUserId, toUserId, count }\<close>; the field \<open>count\<close>
  is named \<open>count_of\<close> here.
\<close>

record exchange_pair =
  fromUserId :: user_id
  toUserId :: user_id
  count_of :: nat

text \<open>A recorded selection \<open>{ fromUserId, cardIds }\<close>.\<close>

record exchange_selection =
  sel_fromUserId :: user_id
  sel_cardIds :: "card list"

record game_player =
  gp_id :: doc_id
  userId :: user_id
  seatIndex :: nat
  hand :: "card list"

record game_state =
  currentTurnUserId :: "user_id option"
  turnNumber :: nat
  turnStartedAt :: nat
  discardPile :: "card list"
  phase :: phase
  lastPlayedCount :: nat
  lastPlayedRank :: "char option"
  lastPlayedBy :: "user_id option"
  passedUserIds :: "user_id list"
  finishedOrder :: "user_id list option"
  roundLoserId :: "user_id option"
  exchangePairs :: "exchange_pair list option"
  exchangeSelections :: "exchange_selection list option"
  roundLeaderId :: "user_id option"

text \<open>
  The part of the database one game's actions read and write: the game-state document
  of the active game (if any) and its \<open>gamePlayers\<close> rows in collection order.
\<close>

record table =
  gameState :: "game_state option"
  gamePlayers :: "game_player list"

text \<open>
  What the indexed lookups at the head of each handler return for a request
  \<open>(code, username)\<close>: whether the room exists, the user's id, the caller's role in the
  room, and the game mode of the room's active game.
\<close>

datatype role = Admin | Player | Spectator

record lookup =
  lk_room :: bool
  lk_user :: "user_id option"
  lk_role :: "role option"
  lk_game :: "string option"

text \<open>The \<open>ConvexError\<close> messages, and the \<open>TypeError\<close> of reading a field of \<open>undefined\<close>.\<close>

datatype error =
    SelectAtLeastOneCard
  | RoomNotFound
  | UserNotFound
  | GameNotFound
  | NotPresidentsMode
  | CompleteExchangeFirst
  | RoundHasEnded
  | NotYourTurn
  | NotInThisGame
  | CardNotInHand
  | TwoAlone
  | SameRankOnly
  | PlayAtLeast nat
  | SameOrHigherRank
  | MustLead
  | OnlyHostRestart
  | RoundNotEnded
  | NotInExchangePhase
  | NotGiving
  | SelectExactly nat
  | SelectedCardNotInHand
  | GameAlreadyInProgress
  | OnlyHostStart
  | NeedTwoPlayers
  | OnlyPresidentsStart
  | TypeError

text \<open>
  The outcome of a handler: \<open>Done t\<close> when it returns, with the table after all its
  writes; \<open>Rejected e t\<close> when it throws \<open>e\<close>, with the table as the writes made before
  the throw left it.
\<close>

datatype outcome = Done table | Rejected error table

text \<open>\<open>ctx.db.patch(id, fields)\<close> on a \<open>gamePlayers\<close> row.\<close>

definition patchPlayer :: "doc_id \<Rightarrow> (game_player \<Rightarrow> game_player) \<Rightarrow> game_player list \<Rightarrow> game_player list" where
  "patchPlayer pid f ps = map (\<lambda>p. if gp_id p = pid then f p else p) ps"

section \<open>Turn rotation (lines 268-282)\<close>

text \<open>
  \<open>getNextPlayerToPlay\<close>. The sort by \<open>seatIndex\<close> is stable, as \<open>sort_key\<close> is.
  The skip set is passed as the list it is built from. When the current user is not
  seated the function returns \<open>sorted[0].userId\<close>, which throws on an empty array.
\<close>

definition getNextPlayerToPlay ::
  "game_player list \<Rightarrow> user_id \<Rightarrow> user_id list \<Rightarrow> user_id list \<Rightarrow> error + user_id option" where
  "getNextPlayerToPlay players currentUserId passed skip =
     (let sorted = sort_key seatIndex players
      in case findIndex (\<lambda>p. userId p = currentUserId) sorted of
           None \<Rightarrow> (case sorted of [] \<Rightarrow> Inl TypeError | p # _ \<Rightarrow> Inr (Some (userId p)))
         | Some idx \<Rightarrow>
             Inr (map_option userId
               (List.find
                  (\<lambda>next. userId next \<noteq> currentUserId \<and> userId next \<notin> set passed
                           \<and> userId next \<notin> set skip)
                  (map (\<lambda>i. sorted ! ((idx + i) mod length sorted)) [1..<length sorted]))))"

section \<open>playCards (lines 284-408)\<close>

text \<open>
  The loop of lines 329-334: each selected card is looked up in the working copy of the
  hand and spliced out at its first position.
\<close>

fun removeEach :: "card list \<Rightarrow> card list \<Rightarrow> card list option" where
  "removeEach h [] = Some h"
| "removeEach h (cid # cids) =
     (if cid \<in> set h then removeEach (remove1 cid h) cids else None)"

text \<open>\<open>[...new Set(xs)]\<close>: the distinct elements in order of first occurrence.\<close>

definition uniq :: "'a list \<Rightarrow> 'a list" where
  "uniq xs = rev (remdups (rev xs))"

definition nonTwos :: "card list \<Rightarrow> char option list" where
  "nonTwos cardIds = filter (\<lambda>r. r \<noteq> Some CHR ''2'') (map rankOf cardIds)"

definition twos :: "card list \<Rightarrow> char option list" where
  "twos cardIds = filter (\<lambda>r. r = Some CHR ''2'') (map rankOf cardIds)"

definition playRankOf :: "card list \<Rightarrow> char option" where
  "playRankOf cardIds =
     (case uniq (nonTwos cardIds) of [] \<Rightarrow> Some CHR ''2'' | r # _ \<Rightarrow> r)"

text \<open>
  The hand sizes as the handler sees them after the play: the actor's row counts with
  the new hand, every other row with its stored hand.
\<close>

definition handLenAfter :: "game_player \<Rightarrow> card list \<Rightarrow> game_player \<Rightarrow> nat" where
  "handLenAfter gp newHand p = (if gp_id p = gp_id gp then length newHand else length (hand p))"

text \<open>Lines 356-406: the writes of an accepted play.\<close>

definition applyPlay ::
  "table \<Rightarrow> game_state \<Rightarrow> game_player \<Rightarrow> user_id \<Rightarrow> card list \<Rightarrow> card list \<Rightarrow> nat \<Rightarrow> outcome" where
  "applyPlay t gs gp u cardIds newHand now =
     (let players = gamePlayers t;
          t1 = t\<lparr>gamePlayers := patchPlayer (gp_id gp) (\<lambda>p. p\<lparr>hand := newHand\<rparr>) players\<rparr>;
          playRank = playRankOf cardIds;
          passed = passedUserIds gs;
          discard = discardPile gs @ cardIds;
          fo0 = (case finishedOrder gs of None \<Rightarrow> [] | Some f \<Rightarrow> f);
          fo = (if newHand = [] \<and> u \<notin> set fo0 then fo0 @ [u] else fo0);
          playerJustFinished = (newHand = []);
          zeroCardUserIds = map userId (filter (\<lambda>p. handLenAfter gp newHand p = 0) players)
      in case getNextPlayerToPlay players u passed zeroCardUserIds of
           Inl e \<Rightarrow> Rejected e t1
         | Inr nextUserIdRaw \<Rightarrow>
            (let samePlayerLeadsAgain = (nextUserIdRaw = None);
                 nextUserId = (case nextUserIdRaw of Some v \<Rightarrow> v | None \<Rightarrow> u);
                 playersWithCards =
                   length (filter (\<lambda>c. c > 0) (map (handLenAfter gp newHand) players));
                 onlyOneHasCards = (playersWithCards = 1)
             in if playerJustFinished \<and> onlyOneHasCards then
                  (let roundLoser =
                         map_option userId (List.find (\<lambda>p. handLenAfter gp newHand p > 0) players);
                       finishedOrderWithLoser =
                         (case roundLoser of Some l \<Rightarrow> fo @ [l] | None \<Rightarrow> fo)
                   in Done (t1\<lparr>gameState := Some (gs\<lparr>
                        phase := RoundEnded,
                        finishedOrder := Some finishedOrderWithLoser,
                        roundLoserId := roundLoser,
                        currentTurnUserId := Some nextUserId,
                        discardPile := discard,
                        lastPlayedCount := 0,
                        lastPlayedRank := None,
                        lastPlayedBy := None,
                        turnNumber := turnNumber gs + 1,
                        turnStartedAt := now\<rparr>)\<rparr>))
                else
                  (let clearTable = (playerJustFinished \<or> samePlayerLeadsAgain)
                   in Done (t1\<lparr>gameState := Some (gs\<lparr>
                        currentTurnUserId := Some nextUserId,
                        lastPlayedCount := (if clearTable then 0 else length cardIds),
                        lastPlayedRank := (if clearTable then None else playRank),
                        lastPlayedBy := (if clearTable then None else Some u),
                        discardPile := (if clearTable then [] else discard),
                        turnNumber := turnNumber gs + 1,
                        turnStartedAt := now,
                        passedUserIds :=
                          (if samePlayerLeadsAgain \<or> playerJustFinished then [] else passedUserIds gs),
                        finishedOrder := (if fo \<noteq> [] then Some fo else finishedOrder gs)\<rparr>)\<rparr>))))"

text \<open>Lines 291-355: the checks of a play, in the order of the source.\<close>

definition playCards :: "lookup \<Rightarrow> card list \<Rightarrow> nat \<Rightarrow> table \<Rightarrow> outcome" where
  "playCards lk cardIds now t =
     (if cardIds = [] then Rejected SelectAtLeastOneCard t
      else if \<not> lk_room lk then Rejected RoomNotFound t
      else
       (case lk_user lk of
          None \<Rightarrow> Rejected UserNotFound t
        | Some u \<Rightarrow>
         (case lk_game lk of
            None \<Rightarrow> Rejected GameNotFound t
          | Some mode \<Rightarrow>
           (if mode \<noteq> ''presidents'' then Rejected NotPresidentsMode t
            else
             (case gameState t of
                None \<Rightarrow> Rejected RoundHasEnded t
              | Some gs \<Rightarrow>
               (if phase gs = RoundEnded \<or> phase gs = Exchange then
                  Rejected (if phase gs = Exchange then CompleteExchangeFirst
                            else RoundHasEnded) t
                else if currentTurnUserId gs \<noteq> Some u then Rejected NotYourTurn t
                else
                 (case List.find (\<lambda>p. userId p = u) (gamePlayers t) of
                    None \<Rightarrow> Rejected NotInThisGame t
                  | Some gp \<Rightarrow>
                   (case removeEach (hand gp) cardIds of
                      None \<Rightarrow> Rejected CardNotInHand t
                    | Some newHand \<Rightarrow>
                     (if length (twos cardIds) = length cardIds then Rejected TwoAlone t
                      else if length (uniq (nonTwos cardIds)) > 1 then
                        Rejected SameRankOnly t
                      else if lastPlayedCount gs > 0
                              \<and> length cardIds < lastPlayedCount gs then
                        Rejected (PlayAtLeast (lastPlayedCount gs)) t
                      else if lastPlayedCount gs > 0
                              \<and> rankValue (playRankOf cardIds)
                                  > rankValue (lastPlayedRank gs) then
                        Rejected SameOrHigherRank t
                      else applyPlay t gs gp u cardIds newHand now)))))))))"

section \<open>pass (lines 410-489)\<close>

text \<open>Lines 449-488: the writes of an accepted pass, in its three branches.\<close>

definition applyPass :: "table \<Rightarrow> game_state \<Rightarrow> user_id \<Rightarrow> nat \<Rightarrow> outcome" where
  "applyPass t gs u now =
     (let players = gamePlayers t;
          passed = passedUserIds gs @ [u];
          numPlayers = length players;
          zeroCardUserIds = map userId (filter (\<lambda>p. length (hand p) = 0) players)
      in case getNextPlayerToPlay players u passed zeroCardUserIds of
           Inl e \<Rightarrow> Rejected e t
         | Inr None \<Rightarrow>
             Done (t\<lparr>gameState := Some (gs\<lparr>
               currentTurnUserId := lastPlayedBy gs,
               lastPlayedCount := 0,
               lastPlayedRank := None,
               lastPlayedBy := None,
               passedUserIds := [],
               turnNumber := turnNumber gs + 1,
               turnStartedAt := now\<rparr>)\<rparr>)
         | Inr (Some nextUserId) \<Rightarrow>
            (if lastPlayedBy gs \<noteq> None \<and> Some nextUserId = lastPlayedBy gs
                \<and> int (length passed) \<ge> int numPlayers - 1 then
               Done (t\<lparr>gameState := Some (gs\<lparr>
                 currentTurnUserId := lastPlayedBy gs,
                 lastPlayedCount := 0,
                 lastPlayedRank := None,
                 lastPlayedBy := None,
                 passedUserIds := [],
                 turnNumber := turnNumber gs + 1,
                 turnStartedAt := now\<rparr>)\<rparr>)
             else
               Done (t\<lparr>gameState := Some (gs\<lparr>
                 currentTurnUserId := Some nextUserId,
                 passedUserIds := passed,
                 turnNumber := turnNumber gs + 1,
                 turnStartedAt := now\<rparr>)\<rparr>)))"

text \<open>Lines 416-448: the checks of a pass.\<close>

definition pass :: "lookup \<Rightarrow> nat \<Rightarrow> table \<Rightarrow> outcome" where
  "pass lk now t =
     (if \<not> lk_room lk then Rejected RoomNotFound t
      else
       (case lk_user lk of
          None \<Rightarrow> Rejected UserNotFound t
        | Some u \<Rightarrow>
         (case lk_game lk of
            None \<Rightarrow> Rejected GameNotFound t
          | Some mode \<Rightarrow>
           (if mode \<noteq> ''presidents'' then Rejected NotPresidentsMode t
            else
             (case gameState t of
                None \<Rightarrow> Rejected RoundHasEnded t
              | Some gs \<Rightarrow>
               (if phase gs = RoundEnded \<or> phase gs = Exchange then
                  Rejected (if phase gs = Exchange then CompleteExchangeFirst
                            else RoundHasEnded) t
                else if currentTurnUserId gs \<noteq> Some u then Rejected NotYourTurn t
                else if lastPlayedCount gs = 0 then Rejected MustLead t
                else applyPass t gs u now))))))"

section \<open>restartRound (lines 491-604)\<close>

text \<open>
  \<open>playerIdxByUserId\<close>: a \<open>Map\<close> built from \<open>[userId, i]\<close> entries in seat
  order, a later entry for the same key replacing an earlier one.
\<close>

definition playerIdxByUserId :: "game_player list \<Rightarrow> user_id \<Rightarrow> nat option" where
  "playerIdxByUserId sortedPlayers =
     map_of (rev (zip (map userId sortedPlayers) [0..<length sortedPlayers]))"

text \<open>
  The exchange pairs of lines 562-584: 2-3 players swap one card between winner and
  loser; 4 or more swap two between first and last and one between second and second-last.
\<close>

definition buildExchangePairs :: "user_id list \<Rightarrow> nat \<Rightarrow> exchange_pair list" where
  "buildExchangePairs fo n =
     (if length fo \<ge> n then
        (if n = 2 \<or> n = 3 then
           (let winnerId = fo ! 0; loserId = fo ! (n - 1)
            in [\<lparr>fromUserId = loserId, toUserId = winnerId, count_of = 1\<rparr>,
                \<lparr>fromUserId = winnerId, toUserId = loserId, count_of = 1\<rparr>])
         else if n \<ge> 4 then
           (let firstId = fo ! 0; lastId = fo ! (n - 1);
                secondId = fo ! 1; secondLastId = fo ! (n - 2)
            in [\<lparr>fromUserId = firstId, toUserId = lastId, count_of = 2\<rparr>,
                \<lparr>fromUserId = lastId, toUserId = firstId, count_of = 2\<rparr>,
                \<lparr>fromUserId = secondId, toUserId = secondLastId, count_of = 1\<rparr>,
                \<lparr>fromUserId = secondLastId, toUserId = secondId, count_of = 1\<rparr>])
         else [])
      else [])"

text \<open>
  One pass of the loop of lines 554-560 for seat \<open>i\<close>: the row is found in the
  handler's snapshot \<open>snapshot\<close>, the patch goes to the stored rows \<open>rows\<close>.
\<close>

definition reseatStep ::
  "user_id list \<Rightarrow> nat \<Rightarrow> game_player list \<Rightarrow> game_player list \<Rightarrow> card list list \<Rightarrow> card list list
     \<Rightarrow> nat \<Rightarrow> game_player list \<Rightarrow> game_player list" where
  "reseatStep fo n snapshot sortedPlayers hands newHandsByOrder i rows =
     (let uid = (if length fo = n then fo ! i else userId (sortedPlayers ! i))
      in case List.find (\<lambda>p. userId p = uid) snapshot of
           None \<Rightarrow> rows
         | Some gp \<Rightarrow>
             (let h = (if length fo = n then newHandsByOrder ! i else hands ! i)
              in patchPlayer (gp_id gp) (\<lambda>p. p\<lparr>seatIndex := i, hand := h\<rparr>) rows))"

text \<open>
  Lines 532-602. When the finish order is empty, line 538 sorts the handler's array of
  rows in place, so the later lines see it sorted.
\<close>

definition applyRestart :: "table \<Rightarrow> game_state \<Rightarrow> (nat \<Rightarrow> nat) \<Rightarrow> nat \<Rightarrow> outcome" where
  "applyRestart t gs rnd now =
     (let fo = (case finishedOrder gs of None \<Rightarrow> [] | Some f \<Rightarrow> f);
          n = length (gamePlayers t)
      in if fo = [] \<and> gamePlayers t = [] then Rejected TypeError t
         else
     (let snapshot = (if fo = [] then sort_key seatIndex (gamePlayers t) else gamePlayers t);
          firstLeaderId = (if fo \<noteq> [] then fo ! 0 else userId (snapshot ! 0));
          allCards = concat (map hand snapshot) @ discardPile gs;
          shuffled = shuffleArray rnd allCards;
          hands = distributeEvenly shuffled n;
          sortedPlayers = sort_key seatIndex snapshot;
          newHandsByOrder =
            (if length fo = n then
               map (\<lambda>uid. case playerIdxByUserId sortedPlayers uid of
                            None \<Rightarrow> []
                          | Some k \<Rightarrow> hands ! k) fo
             else hands);
          rows = fold (reseatStep fo n snapshot sortedPlayers hands newHandsByOrder) [0..<n]
                   (gamePlayers t);
          pairs = buildExchangePairs fo n
      in Done (t\<lparr>gamePlayers := rows,
                 gameState := Some (gs\<lparr>
                   phase := (if pairs \<noteq> [] then Exchange else Play),
                   currentTurnUserId := Some firstLeaderId,
                   turnNumber := turnNumber gs + 1,
                   turnStartedAt := now,
                   discardPile := [],
                   lastPlayedCount := 0,
                   lastPlayedRank := None,
                   lastPlayedBy := None,
                   passedUserIds := [],
                   finishedOrder := None,
                   roundLoserId := None,
                   exchangePairs := (if pairs \<noteq> [] then Some pairs else None),
                   exchangeSelections := Some [],
                   roundLeaderId := (if pairs \<noteq> [] then Some firstLeaderId else None)\<rparr>)\<rparr>)))"

text \<open>Lines 497-531: the checks of a restart.\<close>

definition restartRound :: "lookup \<Rightarrow> (nat \<Rightarrow> nat) \<Rightarrow> nat \<Rightarrow> table \<Rightarrow> outcome" where
  "restartRound lk rnd now t =
     (if \<not> lk_room lk then Rejected RoomNotFound t
      else
       (case lk_user lk of
          None \<Rightarrow> Rejected UserNotFound t
        | Some u \<Rightarrow>
         (if lk_role lk \<noteq> Some Admin then Rejected OnlyHostRestart t
          else
           (case lk_game lk of
              None \<Rightarrow> Rejected GameNotFound t
            | Some mode \<Rightarrow>
             (if mode \<noteq> ''presidents'' then Rejected NotPresidentsMode t
              else
               (case gameState t of
                  None \<Rightarrow> Rejected RoundNotEnded t
                | Some gs \<Rightarrow>
                 (if phase gs \<noteq> RoundEnded then Rejected RoundNotEnded t
                  else applyRestart t gs rnd now)))))))"

section \<open>submitExchangeSelection (lines 606-694)\<close>

text \<open>
  \<open>handsByUserId\<close>: a \<open>Map\<close> from user id to a copy of the hand, a later row
  for the same user replacing an earlier one.
\<close>

definition handsByUserId :: "game_player list \<Rightarrow> user_id \<Rightarrow> card list option" where
  "handsByUserId players = map_of (rev (map (\<lambda>p. (userId p, hand p)) players))"

text \<open>
  One pass of the loop of lines 667-675 for the pair \<open>p\<close>: both hands are read, the
  giver's entry loses every card whose identifier is in the selection (a \<open>Set\<close>
  filter), then the receiver's entry gains the selected cards at the end.
\<close>

definition exchangeStep ::
  "exchange_selection list \<Rightarrow> exchange_pair \<Rightarrow> (user_id \<Rightarrow> card list option)
     \<Rightarrow> (user_id \<Rightarrow> card list option)" where
  "exchangeStep newSelections p H =
     (case List.find (\<lambda>s. sel_fromUserId s = fromUserId p) newSelections of
        None \<Rightarrow> H
      | Some sel \<Rightarrow>
          if length (sel_cardIds sel) \<noteq> count_of p then H
          else
            (let fromHand = (case H (fromUserId p) of None \<Rightarrow> [] | Some h \<Rightarrow> h);
                 toHand = (case H (toUserId p) of None \<Rightarrow> [] | Some h \<Rightarrow> h);
                 H1 = H(fromUserId p \<mapsto> filter (\<lambda>c. c \<notin> set (sel_cardIds sel)) fromHand)
             in H1(toUserId p \<mapsto> toHand @ sel_cardIds sel)))"

definition allIn :: "exchange_pair list \<Rightarrow> exchange_selection list \<Rightarrow> bool" where
  "allIn pairs newSelections =
     list_all (\<lambda>p. case List.find (\<lambda>s. sel_fromUserId s = fromUserId p) newSelections of
                      None \<Rightarrow> False
                    | Some sel \<Rightarrow> length (sel_cardIds sel) = count_of p) pairs"

text \<open>Lines 676-679: every row of the snapshot is patched with its entry of the map.\<close>

definition writeHands ::
  "(user_id \<Rightarrow> card list option) \<Rightarrow> game_player list \<Rightarrow> game_player list" where
  "writeHands H players =
     fold (\<lambda>gp rows.
             patchPlayer (gp_id gp)
               (\<lambda>p. p\<lparr>hand := (case H (userId gp) of None \<Rightarrow> hand gp | Some h \<Rightarrow> h)\<rparr>) rows)
          players players"

text \<open>Lines 656-658: the stored selections with the giver's entry replaced.\<close>

definition recordSelection ::
  "exchange_selection list option \<Rightarrow> user_id \<Rightarrow> card list \<Rightarrow> exchange_selection list" where
  "recordSelection stored u cardIds =
     (let existing = (case stored of None \<Rightarrow> [] | Some ss \<Rightarrow> ss);
          withoutMe = filter (\<lambda>s. sel_fromUserId s \<noteq> u) existing
      in withoutMe @ [\<lparr>sel_fromUserId = u, sel_cardIds = cardIds\<rparr>])"

text \<open>Lines 656-692: the writes of an accepted submission.\<close>

definition applySubmit ::
  "table \<Rightarrow> game_state \<Rightarrow> exchange_pair list \<Rightarrow> user_id \<Rightarrow> card list \<Rightarrow> nat \<Rightarrow> outcome" where
  "applySubmit t gs pairs u cardIds now =
     (let newSelections = recordSelection (exchangeSelections gs) u cardIds
      in if allIn pairs newSelections then
           (let H = fold (exchangeStep newSelections) pairs (handsByUserId (gamePlayers t))
            in Done (t\<lparr>gamePlayers := writeHands H (gamePlayers t),
                       gameState := Some (gs\<lparr>
                         phase := Play,
                         currentTurnUserId := roundLeaderId gs,
                         turnNumber := turnNumber gs + 1,
                         turnStartedAt := now,
                         exchangePairs := None,
                         exchangeSelections := None,
                         roundLeaderId := None\<rparr>)\<rparr>))
         else
           Done (t\<lparr>gameState := Some (gs\<lparr>exchangeSelections := Some newSelections\<rparr>)\<rparr>))"

text \<open>Lines 613-654: the checks of a submission.\<close>

definition submitExchangeSelection :: "lookup \<Rightarrow> card list \<Rightarrow> nat \<Rightarrow> table \<Rightarrow> outcome" where
  "submitExchangeSelection lk cardIds now t =
     (if \<not> lk_room lk then Rejected RoomNotFound t
      else
       (case lk_user lk of
          None \<Rightarrow> Rejected UserNotFound t
        | Some u \<Rightarrow>
         (case lk_game lk of
            None \<Rightarrow> Rejected GameNotFound t
          | Some mode \<Rightarrow>
           (if mode \<noteq> ''presidents'' then Rejected NotPresidentsMode t
            else
             (case gameState t of
                None \<Rightarrow> Rejected NotInExchangePhase t
              | Some gs \<Rightarrow>
               (if phase gs \<noteq> Exchange then Rejected NotInExchangePhase t
                else
                 (let pairs = (case exchangePairs gs of None \<Rightarrow> [] | Some ps \<Rightarrow> ps)
                  in (case List.find (\<lambda>p. fromUserId p = u) pairs of
                        None \<Rightarrow> Rejected NotGiving t
                      | Some myPair \<Rightarrow>
                         (if length cardIds \<noteq> count_of myPair then
                            Rejected (SelectExactly (count_of myPair)) t
                          else
                           (case List.find (\<lambda>p. userId p = u) (gamePlayers t) of
                              None \<Rightarrow> Rejected NotInThisGame t
                            | Some gp \<Rightarrow>
                               (if \<not> list_all (\<lambda>cid. cid \<in> set (hand gp)) cardIds then
                                  Rejected SelectedCardNotInHand t
                                else applySubmit t gs pairs u cardIds now)))))))))))"

section \<open>startGame (lines 72-180)\<close>

text \<open>
  The room and its members as \<open>startGame\<close> reads them. \<open>room.deckCount\<close> is an
  optional number.
\<close>

record room =
  room_in_progress :: bool
  room_gameMode :: string
  room_deckCount :: "js_number option"

record member =
  m_userId :: user_id
  m_seatIndex :: "nat option"

record start_lookup =
  sl_room :: "room option"
  sl_user :: "user_id option"
  sl_role :: "role option"
  sl_members :: "member list"

text \<open>
  Lines 126-172: the documents \<open>startGame\<close> inserts for the new game, from the
  assembled deck. The fresh \<open>_id\<close> of the row inserted for seat \<open>i\<close> is modelled
  as \<open>i\<close>.
\<close>

definition dealGame :: "member list \<Rightarrow> card list \<Rightarrow> (nat \<Rightarrow> nat) \<Rightarrow> nat \<Rightarrow> table" where
  "dealGame members fullDeck rnd now =
     (let shuffled = shuffleArray rnd fullDeck;
          hands = distributeEvenly shuffled (length members);
          sortedMembers =
            sort_key (\<lambda>m. case m_seatIndex m of None \<Rightarrow> 999 | Some i \<Rightarrow> i) members
      in \<lparr>gameState = Some \<lparr>
                 currentTurnUserId = Some (m_userId (sortedMembers ! 0)),
                 turnNumber = 0,
                 turnStartedAt = now,
                 discardPile = [],
                 phase = Play,
                 lastPlayedCount = 0,
                 lastPlayedRank = None,
                 lastPlayedBy = None,
                 passedUserIds = [],
                 finishedOrder = None,
                 roundLoserId = None,
                 exchangePairs = None,
                 exchangeSelections = None,
                 roundLeaderId = None\<rparr>,
          gamePlayers =
            map (\<lambda>i. \<lparr>gp_id = i, userId = m_userId (sortedMembers ! i),
                       seatIndex = i, hand = hands ! i\<rparr>)
                [0..<length sortedMembers]\<rparr>)"

text \<open>
  \<open>startGame\<close>: the checks in the order of the source, then the deck and the deal.
  The result is \<open>None\<close> when the handler does not return (the deck loop does not
  end), \<open>Some (Inl e)\<close> when it throws \<open>e\<close>, and \<open>Some (Inr t)\<close> when it creates
  the table \<open>t\<close>.
\<close>

definition startGame ::
  "start_lookup \<Rightarrow> (nat \<Rightarrow> nat) \<Rightarrow> nat \<Rightarrow> (error + table) option" where
  "startGame slk rnd now =
     (case sl_room slk of
        None \<Rightarrow> Some (Inl RoomNotFound)
      | Some room \<Rightarrow>
         (if room_in_progress room then Some (Inl GameAlreadyInProgress)
          else if sl_user slk = None then Some (Inl UserNotFound)
          else if sl_role slk \<noteq> Some Admin then Some (Inl OnlyHostStart)
          else if length (sl_members slk) < 2 then Some (Inl NeedTwoPlayers)
          else if room_gameMode room \<noteq> ''presidents'' then Some (Inl OnlyPresidentsStart)
          else
           (let deckCount =
                  max_one (case room_deckCount room of None \<Rightarrow> Finite 1 | Some d \<Rightarrow> d)
            in (case buildDeck deckCount of
                  None \<Rightarrow> None
                | Some fullDeck \<Rightarrow> Some (Inr (dealGame (sl_members slk) fullDeck rnd now))))))"

section \<open>Reachable tables\<close>

text \<open>
  The tables a game can be in: the one \<open>startGame\<close> creates for a room whose members
  are distinct users (\<open>joinRoom\<close> adds a user to a room at most once), and every
  table an accepted action leads to from a reachable one.
\<close>

inductive reachable :: "table \<Rightarrow> bool" where
  r_start: "startGame slk rnd now = Some (Inr t) \<Longrightarrow> distinct (map m_userId (sl_members slk))
            \<Longrightarrow> reachable t"
| r_play: "reachable t \<Longrightarrow> playCards lk cardIds now t = Done t' \<Longrightarrow> reachable t'"
| r_pass: "reachable t \<Longrightarrow> pass lk now t = Done t' \<Longrightarrow> reachable t'"
| r_restart: "reachable t \<Longrightarrow> restartRound lk rnd now t = Done t' \<Longrightarrow> reachable t'"
| r_submit: "reachable t \<Longrightarrow> submitExchangeSelection lk cardIds now t = Done t' \<Longrightarrow> reachable t'"

section \<open>Invariants of reachable tables\<close>

text \<open>The number of seats that hold at least one card.\<close>

definition holders :: "game_player list \<Rightarrow> nat" where
  "holders ps = length (filter (\<lambda>p. hand p \<noteq> []) ps)"

text \<open>The multiset of all cards in the hands, and in the hands and the discard pile.\<close>

definition handCards :: "game_player list \<Rightarrow> card multiset" where
  "handCards ps = mset (concat (map hand ps))"

definition discardOf :: "table \<Rightarrow> card list" where
  "discardOf t = (case gameState t of None \<Rightarrow> [] | Some gs \<Rightarrow> discardPile gs)"

definition cardsOf :: "table \<Rightarrow> card multiset" where
  "cardsOf t = handCards (gamePlayers t) + mset (discardOf t)"

text \<open>A play stands on the table: the standing count is not zero.\<close>

definition standing :: "table \<Rightarrow> bool" where
  "standing t = (case gameState t of None \<Rightarrow> False | Some gs \<Rightarrow> lastPlayedCount gs \<noteq> 0)"

text \<open>An accepted play or pass after which a play still stands (the table did not clear).\<close>

inductive quiet_step :: "table \<Rightarrow> table \<Rightarrow> bool" where
  q_play: "playCards lk cardIds now t = Done t' \<Longrightarrow> standing t' \<Longrightarrow> quiet_step t t'"
| q_pass: "pass lk now t = Done t' \<Longrightarrow> standing t' \<Longrightarrow> quiet_step t t'"

text \<open>
  What holds of the round state in each phase. In the play phase: nobody is recorded as
  passed twice and the seat to play has not passed; the finish order lists distinct
  seated users with empty hands; and at least two seats hold cards, unless the seat to
  play holds none and must lead.
\<close>

definition inv_play :: "game_player list \<Rightarrow> game_state \<Rightarrow> bool" where
  "inv_play ps gs \<longleftrightarrow>
     distinct (passedUserIds gs)
     \<and> (\<forall>c. currentTurnUserId gs = Some c \<longrightarrow> c \<notin> set (passedUserIds gs))
     \<and> (\<forall>fo. finishedOrder gs = Some fo \<longrightarrow>
           distinct fo \<and> set fo \<subseteq> userId ` set ps
           \<and> (\<forall>p\<in>set ps. userId p \<in> set fo \<longrightarrow> hand p = []))
     \<and> (2 \<le> holders ps
          \<or> (lastPlayedCount gs = 0
              \<and> (\<forall>p\<in>set ps. currentTurnUserId gs = Some (userId p) \<longrightarrow> hand p = [])))"

definition inv_ended :: "game_player list \<Rightarrow> game_state \<Rightarrow> bool" where
  "inv_ended ps gs \<longleftrightarrow>
     discardPile gs \<noteq> [] \<and> (\<exists>p\<in>set ps. hand p \<noteq> [])
     \<and> (\<exists>fo. finishedOrder gs = Some fo \<and> distinct fo \<and> set fo \<subseteq> userId ` set ps)"

definition inv_exchange :: "game_player list \<Rightarrow> game_state \<Rightarrow> bool" where
  "inv_exchange ps gs \<longleftrightarrow>
     passedUserIds gs = [] \<and> finishedOrder gs = None \<and> lastPlayedCount gs = 0
     \<and> (\<exists>pairs w. exchangePairs gs = Some pairs \<and> pairs \<noteq> []
           \<and> roundLeaderId gs = Some w \<and> w \<in> userId ` set ps
           \<and> toUserId (last pairs) \<in> userId ` set ps
           \<and> toUserId (last pairs) \<noteq> w
           \<and> 1 \<le> count_of (last pairs))"

definition inv :: "table \<Rightarrow> bool" where
  "inv t \<longleftrightarrow>
     (\<exists>gs. gameState t = Some gs
        \<and> distinct (map userId (gamePlayers t))
        \<and> distinct (map gp_id (gamePlayers t))
        \<and> 2 \<le> length (gamePlayers t)
        \<and> (\<forall>c. currentTurnUserId gs = Some c \<longrightarrow> c \<in> userId ` set (gamePlayers t))
        \<and> (\<forall>v. lastPlayedBy gs = Some v \<longrightarrow> v \<in> userId ` set (gamePlayers t))
        \<and> (phase gs = Play \<longrightarrow> inv_play (gamePlayers t) gs)
        \<and> (phase gs = RoundEnded \<longrightarrow> inv_ended (gamePlayers t) gs)
        \<and> (phase gs = Exchange \<longrightarrow> inv_exchange (gamePlayers t) gs))"

section \<open>Observations and sample data\<close>

definition isDone :: "outcome \<Rightarrow> bool" where
  "isDone r = (case r of Done _ \<Rightarrow> True | Rejected _ _ \<Rightarrow> False)"

definition tableOf :: "outcome \<Rightarrow> table" where
  "tableOf r = (case r of Done t \<Rightarrow> t | Rejected _ t \<Rightarrow> t)"

definition turnOf :: "table \<Rightarrow> nat option" where
  "turnOf t = map_option turnNumber (gameState t)"

text \<open>A request whose lookups all resolve, made by user \<open>u\<close> with role \<open>r\<close>.\<close>

definition request :: "user_id \<Rightarrow> role \<Rightarrow> lookup" where
  "request u r =
     \<lparr>lk_room = True, lk_user = Some u, lk_role = Some r, lk_game = Some ''presidents''\<rparr>"

definition sample_players :: "game_player list" where
  "sample_players =
     [\<lparr>gp_id = 0, userId = 11, seatIndex = 0, hand = [''2S'', ''2H'', ''5C'', ''9D'']\<rparr>,
      \<lparr>gp_id = 1, userId = 12, seatIndex = 1, hand = [''KH'', ''7C'']\<rparr>,
      \<lparr>gp_id = 2, userId = 13, seatIndex = 2, hand = [''6D'', ''3S'']\<rparr>]"

text \<open>
  Three seats in the play phase: user 11 is to play on a standing pair of fours led by
  user 13, and user 12 has passed.
\<close>

definition sample_state :: game_state where
  "sample_state =
     \<lparr>currentTurnUserId = Some 11, turnNumber = 4, turnStartedAt = 0,
      discardPile = [''4S'', ''4H''], phase = Play, lastPlayedCount = 2,
      lastPlayedRank = Some CHR ''4'', lastPlayedBy = Some 13, passedUserIds = [12],
      finishedOrder = None, roundLoserId = None, exchangePairs = None,
      exchangeSelections = None, roundLeaderId = None\<rparr>"

definition sample_table :: table where
  "sample_table = \<lparr>gameState = Some sample_state, gamePlayers = sample_players\<rparr>"

text \<open>The same seats in the exchange phase, users 13 and 11 owing each other one card.\<close>

definition sample_exchange :: table where
  "sample_exchange =
     \<lparr>gameState = Some (sample_state\<lparr>phase := Exchange, lastPlayedCount := 0,
        lastPlayedRank := None, lastPlayedBy := None, passedUserIds := [], discardPile := [],
        exchangePairs := Some [\<lparr>fromUserId = 13, toUserId = 11, count_of = 1\<rparr>,
                               \<lparr>fromUserId = 11, toUserId = 13, count_of = 1\<rparr>],
        exchangeSelections := Some [], roundLeaderId := Some 11\<rparr>),
      gamePlayers = sample_players\<rparr>"

text \<open>
  Four seats in the exchange phase, with every selection in but user 11's: users 11 and
  14 owe each other two cards, users 12 and 13 one card.
\<close>

definition sample_exchange4 :: table where
  "sample_exchange4 =
     \<lparr>gameState = Some (sample_state\<lparr>phase := Exchange, lastPlayedCount := 0,
        lastPlayedRank := None, lastPlayedBy := None, passedUserIds := [], discardPile := [],
        exchangePairs := Some [\<lparr>fromUserId = 11, toUserId = 14, count_of = 2\<rparr>,
                               \<lparr>fromUserId = 14, toUserId = 11, count_of = 2\<rparr>,
                               \<lparr>fromUserId = 12, toUserId = 13, count_of = 1\<rparr>,
                               \<lparr>fromUserId = 13, toUserId = 12, count_of = 1\<rparr>],
        exchangeSelections := Some [\<lparr>sel_fromUserId = 14, sel_cardIds = [''3S'', ''4S'']\<rparr>,
                                    \<lparr>sel_fromUserId = 12, sel_cardIds = [''KH'']\<rparr>,
                                    \<lparr>sel_fromUserId = 13, sel_cardIds = [''6D'']\<rparr>],
        roundLeaderId := Some 11\<rparr>),
      gamePlayers =
        [\<lparr>gp_id = 0, userId = 11, seatIndex = 0, hand = [''5C'', ''9D'']\<rparr>,
         \<lparr>gp_id = 1, userId = 12, seatIndex = 1, hand = [''KH'']\<rparr>,
         \<lparr>gp_id = 2, userId = 13, seatIndex = 2, hand = [''6D'']\<rparr>,
         \<lparr>gp_id = 3, userId = 14, seatIndex = 3, hand = [''3S'', ''4S'']\<rparr>]\<rparr>"

text \<open>A round that has ended with finish order 12, 11, 13.\<close>

definition sample_ended :: table where
  "sample_ended =
     \<lparr>gameState = Some (sample_state\<lparr>phase := RoundEnded, lastPlayedCount := 0,
        lastPlayedRank := None, lastPlayedBy := None, passedUserIds := [],
        finishedOrder := Some [12, 11, 13], roundLoserId := Some 13\<rparr>),
      gamePlayers =
        [\<lparr>gp_id = 0, userId = 11, seatIndex = 0, hand = []\<rparr>,
         \<lparr>gp_id = 1, userId = 12, seatIndex = 1, hand = []\<rparr>,
         \<lparr>gp_id = 2, userId = 13, seatIndex = 2, hand = [''6D'', ''3S'']\<rparr>]\<rparr>"

section \<open>A sample game from its start\<close>

text \<open>
  Eight users join a room with one deck; the draws of the shuffle are chosen so that the
  first seat is dealt the four 3s and three of the 2s.
\<close>

definition sample_members :: "member list" where
  "sample_members =
     [\<lparr>m_userId = 10, m_seatIndex = Some 0\<rparr>, \<lparr>m_userId = 11, m_seatIndex = Some 1\<rparr>,
      \<lparr>m_userId = 12, m_seatIndex = Some 2\<rparr>, \<lparr>m_userId = 13, m_seatIndex = Some 3\<rparr>,
      \<lparr>m_userId = 14, m_seatIndex = Some 4\<rparr>, \<lparr>m_userId = 15, m_seatIndex = Some 5\<rparr>,
      \<lparr>m_userId = 16, m_seatIndex = Some 6\<rparr>, \<lparr>m_userId = 17, m_seatIndex = Some 7\<rparr>]"

definition sample_lobby :: start_lookup where
  "sample_lobby =
     \<lparr>sl_room = Some \<lparr>room_in_progress = False, room_gameMode = ''presidents'',
                       room_deckCount = Some (Finite 1)\<rparr>,
      sl_user = Some 10, sl_role = Some Admin, sl_members = sample_members\<rparr>"

definition sample_rnd :: "nat \<Rightarrow> nat" where
  "sample_rnd i = (if i = 41 then 0 else if i = 28 then 3 else if i = 27 then 4
                   else if i = 15 then 5 else if i = 14 then 6 else i)"

definition game_rows :: "game_player list" where
  "game_rows =
     [\<lparr>gp_id = 0, userId = 10, seatIndex = 0,
        hand = [''3C'', ''2S'', ''3S'', ''3D'', ''2D'', ''3H'', ''2H'']\<rparr>,
      \<lparr>gp_id = 1, userId = 11, seatIndex = 1,
        hand = [''8S'', ''9S'', ''TS'', ''JS'', ''QS'', ''KS'', ''AH'']\<rparr>,
      \<lparr>gp_id = 2, userId = 12, seatIndex = 2,
        hand = [''7S'', ''6S'', ''4H'', ''5H'', ''6H'', ''7H'', ''8H'']\<rparr>,
      \<lparr>gp_id = 3, userId = 13, seatIndex = 3,
        hand = [''9H'', ''TH'', ''JH'', ''QH'', ''KH'', ''AD'', ''5S'']\<rparr>,
      \<lparr>gp_id = 4, userId = 14, seatIndex = 4,
        hand = [''4S'', ''4D'', ''5D'', ''6D'', ''7D'', ''8D'']\<rparr>,
      \<lparr>gp_id = 5, userId = 15, seatIndex = 5,
        hand = [''9D'', ''TD'', ''JD'', ''QD'', ''KD'', ''AC'']\<rparr>,
      \<lparr>gp_id = 6, userId = 16, seatIndex = 6,
        hand = [''2C'', ''AS'', ''4C'', ''5C'', ''6C'', ''7C'']\<rparr>,
      \<lparr>gp_id = 7, userId = 17, seatIndex = 7,
        hand = [''8C'', ''9C'', ''TC'', ''JC'', ''QC'', ''KC'']\<rparr>]"

definition game_state0 :: game_state where
  "game_state0 =
     \<lparr>currentTurnUserId = Some 10, turnNumber = 0, turnStartedAt = 0,
      discardPile = [], phase = Play, lastPlayedCount = 0,
      lastPlayedRank = None, lastPlayedBy = None, passedUserIds = [],
      finishedOrder = None, roundLoserId = None, exchangePairs = None,
      exchangeSelections = None, roundLeaderId = None\<rparr>"

text \<open>The table \<open>startGame\<close> creates.\<close>

definition game_start :: table where
  "game_start = \<lparr>gameState = Some game_state0, gamePlayers = game_rows\<rparr>"

text \<open>User 10 plays the whole hand at once: four 3s with three 2s.\<close>

definition game_shed :: table where
  "game_shed =
     \<lparr>gameState = Some (game_state0\<lparr>currentTurnUserId := Some 11, turnNumber := 1,
        turnStartedAt := 1, finishedOrder := Some [10]\<rparr>),
      gamePlayers = game_rows[0 := \<lparr>gp_id = 0, userId = 10, seatIndex = 0, hand = []\<rparr>]\<rparr>"

text \<open>Instead, user 10 leads the 3 of clubs; then user 11 passes; then user 12 passes.\<close>

definition game_led :: table where
  "game_led =
     \<lparr>gameState = Some (game_state0\<lparr>currentTurnUserId := Some 11, turnNumber := 1,
        turnStartedAt := 1, discardPile := [''3C''], lastPlayedCount := 1,
        lastPlayedRank := Some CHR ''3'', lastPlayedBy := Some 10\<rparr>),
      gamePlayers = game_rows[0 := \<lparr>gp_id = 0, userId = 10, seatIndex = 0,
        hand = [''2S'', ''3S'', ''3D'', ''2D'', ''3H'', ''2H'']\<rparr>]\<rparr>"

definition game_passed :: table where
  "game_passed =
     game_led\<lparr>gameState := Some (the (gameState game_led)\<lparr>currentTurnUserId := Some 12,
        turnNumber := 2, turnStartedAt := 2, passedUserIds := [11]\<rparr>)\<rparr>"

definition game_passed_twice :: table where
  "game_passed_twice =
     game_led\<lparr>gameState := Some (the (gameState game_led)\<lparr>currentTurnUserId := Some 13,
        turnNumber := 3, turnStartedAt := 3, passedUserIds := [11, 12]\<rparr>)\<rparr>"

section \<open>A sample game of two players, played to the end of a round\<close>

text \<open>A script of requests, each made with resolving lookups at time 0.\<close>

datatype action = PlayCards user_id "card list" | Pass user_id

fun run :: "table \<Rightarrow> action list \<Rightarrow> table option" where
  "run t [] = Some t"
| "run t (PlayCards u cs # as) =
     (case playCards (request u Player) cs 0 t of
        Done t' \<Rightarrow> run t' as
      | Rejected _ _ \<Rightarrow> None)"
| "run t (Pass u # as) =
     (case pass (request u Player) 0 t of
        Done t' \<Rightarrow> run t' as
      | Rejected _ _ \<Rightarrow> None)"

text \<open>
  Users 20 and 21 with one deck (the room's default); the draws give user 20 all 2s to
  7s and two 8s.
\<close>

definition duel_lobby :: start_lookup where
  "duel_lobby =
     \<lparr>sl_room = Some \<lparr>room_in_progress = False, room_gameMode = ''presidents'',
                       room_deckCount = None\<rparr>,
      sl_user = Some 20, sl_role = Some Admin,
      sl_members = [\<lparr>m_userId = 20, m_seatIndex = Some 0\<rparr>,
                    \<lparr>m_userId = 21, m_seatIndex = Some 1\<rparr>]\<rparr>"

definition duel_rnd :: "nat \<Rightarrow> nat" where
  "duel_rnd i =
     (case map_of [(45, 0), (44, 8), (43, 9), (42, 10), (41, 11), (40, 12),
                   (32, 13), (31, 21), (30, 22), (29, 23), (28, 24), (27, 25)] i of
        Some j \<Rightarrow> j
      | None \<Rightarrow> i)"

definition duel_other_hand :: "card list" where
  "duel_other_hand =
     [''AD'', ''KH'', ''QH'', ''JH'', ''TH'', ''9H'', ''AH'',
      ''8D'', ''9D'', ''TD'', ''JD'', ''QD'', ''KD'', ''AC'',
      ''KS'', ''QS'', ''JS'', ''TS'', ''9S'', ''AS'', ''8C'',
      ''9C'', ''TC'', ''JC'', ''QC'', ''KC'']"

definition duel_rows :: "card list \<Rightarrow> game_player list" where
  "duel_rows h =
     [\<lparr>gp_id = 0, userId = 20, seatIndex = 0, hand = h\<rparr>,
      \<lparr>gp_id = 1, userId = 21, seatIndex = 1, hand = duel_other_hand\<rparr>]"

definition duel_start :: table where
  "duel_start =
     \<lparr>gameState = Some (game_state0\<lparr>currentTurnUserId := Some 20\<rparr>),
      gamePlayers = duel_rows
        [''7C'', ''2S'', ''3S'', ''4S'', ''5S'', ''6S'', ''7S'',
         ''8S'', ''6C'', ''5C'', ''4C'', ''3C'', ''2C'', ''7D'',
         ''2H'', ''3H'', ''4H'', ''5H'', ''6H'', ''7H'', ''8H'',
         ''6D'', ''5D'', ''4D'', ''3D'', ''2D'']\<rparr>"

text \<open>User 20 leads five times, user 21 passes each time.\<close>

definition duel_script :: "action list" where
  "duel_script =
     [PlayCards 20 [''3S'', ''3H'', ''3D'', ''3C'', ''2S'', ''2H'', ''2D'', ''2C''], Pass 21,
      PlayCards 20 [''4S'', ''4H'', ''4D'', ''4C''], Pass 21,
      PlayCards 20 [''5S'', ''5H'', ''5D'', ''5C''], Pass 21,
      PlayCards 20 [''6S'', ''6H'', ''6D'', ''6C''], Pass 21,
      PlayCards 20 [''7S'', ''7H'', ''7D'', ''7C''], Pass 21]"

definition duel_pile :: "card list" where
  "duel_pile =
     [''3S'', ''3H'', ''3D'', ''3C'', ''2S'', ''2H'', ''2D'', ''2C'',
      ''4S'', ''4H'', ''4D'', ''4C'', ''5S'', ''5H'', ''5D'', ''5C'',
      ''6S'', ''6H'', ''6D'', ''6C'', ''7S'', ''7H'', ''7D'', ''7C'']"

text \<open>The table after the script: user 20 holds the two 8s and is to lead.\<close>

definition duel_last :: table where
  "duel_last =
     \<lparr>gameState = Some (game_state0\<lparr>currentTurnUserId := Some 20, turnNumber := 10,
        discardPile := duel_pile\<rparr>),
      gamePlayers = duel_rows [''8S'', ''8H'']\<rparr>"

text \<open>The table after user 20 plays the two 8s.\<close>

definition duel_ended :: table where
  "duel_ended =
     \<lparr>gameState = Some (game_state0\<lparr>currentTurnUserId := Some 21, turnNumber := 11,
        discardPile := duel_pile @ [''8S'', ''8H''], phase := RoundEnded,
        finishedOrder := Some [20, 21], roundLoserId := Some 21\<rparr>),
      gamePlayers = duel_rows []\<rparr>"

section \<open>The play rule in the words of the specification\<close>

text \<open>
  The definitions of this section are not taken from the code: they restate, in the
  specification's own words, what the legality of a play depends on, so that the
  handler can be compared with them.

  A card identifier is a rank symbol followed by a suit symbol; the rank of a card is
  its first symbol (none for an empty identifier).
\<close>

definition spec_rank :: "card \<Rightarrow> char option" where
  "spec_rank c = (if c = [] then None else Some (hd c))"

text \<open>
  Strength ordering, strongest first: 2, A, K, Q, J, 10, 9, 8, 7, 6, 5, 4, 3 (the ten is
  written \<open>T\<close> in identifiers). The strength of a rank is its place counted from the
  weakest: 3 has strength 1 and 2 has strength 13. What is not one of the thirteen
  ranks has strength 0, below every rank.
\<close>

fun spec_strength :: "char option \<Rightarrow> nat" where
  "spec_strength None = 0"
| "spec_strength (Some r) =
     (if r = CHR ''2'' then 13
      else if r = CHR ''A'' then 12
      else if r = CHR ''K'' then 11
      else if r = CHR ''Q'' then 10
      else if r = CHR ''J'' then 9
      else if r = CHR ''T'' then 8
      else if r = CHR ''9'' then 7
      else if r = CHR ''8'' then 6
      else if r = CHR ''7'' then 5
      else if r = CHR ''6'' then 4
      else if r = CHR ''5'' then 3
      else if r = CHR ''4'' then 2
      else if r = CHR ''3'' then 1
      else 0)"

text \<open>Rank \<open>r\<close> is the same as or stronger than rank \<open>s\<close>.\<close>

definition spec_same_or_stronger :: "char option \<Rightarrow> char option \<Rightarrow> bool" where
  "spec_same_or_stronger r s \<longleftrightarrow> spec_strength s \<le> spec_strength r"

text \<open>The rank 2 is the wildcard.\<close>

definition spec_wild :: "card \<Rightarrow> bool" where
  "spec_wild c \<longleftrightarrow> spec_rank c = Some CHR ''2''"

text \<open>The ranks left in a selection after stripping the wildcards.\<close>

definition spec_real_ranks :: "card list \<Rightarrow> char option set" where
  "spec_real_ranks cardIds = spec_rank ` {c \<in> set cardIds. \<not> spec_wild c}"

text \<open>
  The effective rank of a selection is its unique non-2 rank: \<open>r\<close> is the rank of a
  selected card that is no wildcard, and every selected card that is no wildcard has
  rank \<open>r\<close>.
\<close>

definition spec_effective_rank :: "card list \<Rightarrow> char option \<Rightarrow> bool" where
  "spec_effective_rank cardIds r \<longleftrightarrow>
     r \<in> spec_real_ranks cardIds \<and> (\<forall>q\<in>spec_real_ranks cardIds. q = r)"

section \<open>What an accepted or rejected request went through\<close>

lemma findIndex_None_iff: "findIndex P xs = None \<longleftrightarrow> (\<forall>x\<in>set xs. \<not> P x)"
  by (induction xs) auto

lemma find_Some_set: "List.find P xs = Some x \<Longrightarrow> x \<in> set xs \<and> P x"
  by (induction xs) (auto split: if_splits)

lemma getNext_seated:
  assumes "List.find (\<lambda>p. userId p = u) ps = Some gp"
  shows "\<exists>r. getNextPlayerToPlay ps u passed skip = Inr r"
proof -
  from assms have "gp \<in> set ps \<and> userId gp = u" by (rule find_Some_set)
  then have "\<exists>x\<in>set (sort_key seatIndex ps). userId x = u" by auto
  then have "findIndex (\<lambda>p. userId p = u) (sort_key seatIndex ps) \<noteq> None"
    by (simp add: findIndex_None_iff)
  then show ?thesis
    by (auto simp: getNextPlayerToPlay_def Let_def)
qed

lemma applyPlay_not_rejected:
  assumes "List.find (\<lambda>p. userId p = u) (gamePlayers t) = Some gp"
  shows "applyPlay t gs gp u cardIds newHand now \<noteq> Rejected e t'"
proof -
  obtain r where "getNextPlayerToPlay (gamePlayers t) u (passedUserIds gs)
     (map userId (filter (\<lambda>p. handLenAfter gp newHand p = 0) (gamePlayers t))) = Inr r"
    using getNext_seated[OF assms] by blast
  then show ?thesis
    by (simp add: applyPlay_def Let_def)
qed

lemma phase_Play: "p \<noteq> RoundEnded \<Longrightarrow> p \<noteq> Exchange \<Longrightarrow> p = Play"
  by (cases p) auto

lemma playCards_Done:
  assumes "playCards lk cardIds now t = Done t'"
  shows "\<exists>u gs gp newHand.
    lk_user lk = Some u \<and> gameState t = Some gs \<and> phase gs = Play \<and>
    currentTurnUserId gs = Some u \<and>
    List.find (\<lambda>p. userId p = u) (gamePlayers t) = Some gp \<and>
    removeEach (hand gp) cardIds = Some newHand \<and> cardIds \<noteq> [] \<and>
    applyPlay t gs gp u cardIds newHand now = Done t'"
  using assms unfolding playCards_def
  by (simp split: if_splits option.splits add: phase_Play)

lemma pass_Done:
  assumes "pass lk now t = Done t'"
  shows "\<exists>u gs. lk_user lk = Some u \<and> gameState t = Some gs \<and> phase gs = Play \<and>
    currentTurnUserId gs = Some u \<and> lastPlayedCount gs \<noteq> 0 \<and> applyPass t gs u now = Done t'"
  using assms unfolding pass_def
  by (simp split: if_splits option.splits add: phase_Play)

lemma restartRound_Done:
  assumes "restartRound lk rnd now t = Done t'"
  shows "\<exists>gs. gameState t = Some gs \<and> phase gs = RoundEnded \<and> lk_role lk = Some Admin \<and>
    applyRestart t gs rnd now = Done t'"
  using assms unfolding restartRound_def
  by (simp split: if_splits option.splits)

lemma submit_Done:
  assumes "submitExchangeSelection lk cardIds now t = Done t'"
  shows "\<exists>u gs myPair gp. lk_user lk = Some u \<and> gameState t = Some gs \<and> phase gs = Exchange \<and>
    List.find (\<lambda>p. fromUserId p = u) (case exchangePairs gs of None \<Rightarrow> [] | Some ps \<Rightarrow> ps) = Some myPair \<and>
    length cardIds = count_of myPair \<and>
    List.find (\<lambda>p. userId p = u) (gamePlayers t) = Some gp \<and>
    list_all (\<lambda>cid. cid \<in> set (hand gp)) cardIds \<and>
    applySubmit t gs (case exchangePairs gs of None \<Rightarrow> [] | Some ps \<Rightarrow> ps) u cardIds now = Done t'"
  using assms unfolding submitExchangeSelection_def Let_def
  by (auto split: if_splits option.splits)

lemma playCards_rejected: "playCards lk cardIds now t = Rejected e t' \<Longrightarrow> t' = t"
  unfolding playCards_def
  by (auto split: if_splits option.splits simp: applyPlay_not_rejected)

lemma applyPass_rejected: "applyPass t gs u now = Rejected e t' \<Longrightarrow> t' = t"
  unfolding applyPass_def Let_def
  by (auto split: if_splits option.splits sum.splits)

lemma pass_rejected: "pass lk now t = Rejected e t' \<Longrightarrow> t' = t"
  unfolding pass_def
  by (auto split: if_splits option.splits dest: applyPass_rejected)

lemma applyRestart_rejected: "applyRestart t gs rnd now = Rejected e t' \<Longrightarrow> t' = t"
  unfolding applyRestart_def Let_def
  by (auto split: if_splits)

lemma restartRound_rejected: "restartRound lk rnd now t = Rejected e t' \<Longrightarrow> t' = t"
  unfolding restartRound_def
  by (auto split: if_splits option.splits dest: applyRestart_rejected)

lemma applySubmit_not_rejected: "applySubmit t gs pairs u cardIds now \<noteq> Rejected e t'"
  unfolding applySubmit_def Let_def by simp

lemma submit_rejected: "submitExchangeSelection lk cardIds now t = Rejected e t' \<Longrightarrow> t' = t"
  unfolding submitExchangeSelection_def Let_def
  by (auto split: if_splits option.splits simp: applySubmit_not_rejected)

section \<open>The turn counter and the frame of a pass\<close>

lemma applyPlay_turn:
  "applyPlay t gs gp u cardIds newHand now = Done t' \<Longrightarrow> turnOf t' = Some (turnNumber gs + 1)"
  unfolding applyPlay_def Let_def turnOf_def
  by (auto split: sum.splits if_splits)

lemma applyPass_turn:
  "applyPass t gs u now = Done t' \<Longrightarrow> turnOf t' = Some (turnNumber gs + 1)"
  unfolding applyPass_def Let_def turnOf_def
  by (auto split: sum.splits if_splits option.splits)

lemma applyRestart_turn:
  "applyRestart t gs rnd now = Done t' \<Longrightarrow> turnOf t' = Some (turnNumber gs + 1)"
  unfolding applyRestart_def Let_def turnOf_def
  by (auto split: if_splits)

lemma applySubmit_turn:
  "applySubmit t gs pairs u cardIds now = Done t' \<Longrightarrow> phase gs = Exchange \<Longrightarrow>
   turnOf t' = (if map_option phase (gameState t') = Some Play
                then Some (turnNumber gs + 1) else Some (turnNumber gs))"
  unfolding applySubmit_def Let_def turnOf_def
  by (auto split: if_splits)

lemma playCards_turn:
  assumes "playCards lk cardIds now t = Done t'"
  shows "turnOf t \<noteq> None \<and> turnOf t' = map_option Suc (turnOf t)"
  using assms by (auto simp: turnOf_def dest!: playCards_Done applyPlay_turn)

lemma pass_turn:
  assumes "pass lk now t = Done t'"
  shows "turnOf t \<noteq> None \<and> turnOf t' = map_option Suc (turnOf t)"
  using assms by (auto simp: turnOf_def dest!: pass_Done applyPass_turn)

lemma restartRound_turn:
  assumes "restartRound lk rnd now t = Done t'"
  shows "turnOf t \<noteq> None \<and> turnOf t' = map_option Suc (turnOf t)"
  using assms by (auto simp: turnOf_def dest!: restartRound_Done applyRestart_turn)

lemma submit_turn:
  assumes "submitExchangeSelection lk cardIds now t = Done t'"
  shows "turnOf t \<noteq> None \<and>
         turnOf t' = (if map_option phase (gameState t') = Some Play
                      then map_option Suc (turnOf t) else turnOf t)"
proof -
  from submit_Done[OF assms] obtain u gs where
    gs: "gameState t = Some gs" "phase gs = Exchange"
    and ap: "applySubmit t gs (case exchangePairs gs of None \<Rightarrow> [] | Some ps \<Rightarrow> ps) u cardIds now = Done t'"
    by blast
  from applySubmit_turn[OF ap gs(2)] gs(1) show ?thesis
    by (simp add: turnOf_def)
qed

lemma applyPass_frame:
  assumes "applyPass t gs u now = Done t'"
  shows "gamePlayers t' = gamePlayers t \<and>
         (\<exists>gs'. gameState t' = Some gs' \<and>
            discardPile gs' = discardPile gs \<and> phase gs' = phase gs \<and>
            finishedOrder gs' = finishedOrder gs \<and> roundLoserId gs' = roundLoserId gs \<and>
            exchangePairs gs' = exchangePairs gs \<and>
            exchangeSelections gs' = exchangeSelections gs \<and>
            roundLeaderId gs' = roundLeaderId gs)"
  using assms unfolding applyPass_def Let_def
  by (auto split: if_splits option.splits sum.splits)

section \<open>Exchange selections and restart\<close>

lemma recordSelection_again:
  "recordSelection (Some (recordSelection stored u cs)) u cs = recordSelection stored u cs"
  by (simp add: recordSelection_def)

lemma recordSelection_own:
  "filter (\<lambda>s. sel_fromUserId s = u) (recordSelection stored u cs)
     = [\<lparr>sel_fromUserId = u, sel_cardIds = cs\<rparr>]"
  by (simp add: recordSelection_def filter_empty_conv)

lemma applySubmit_pending:
  assumes "applySubmit t gs pairs u cs now = Done t1" "gameState t1 = Some gs1"
    "phase gs1 = Exchange"
  shows "\<not> allIn pairs (recordSelection (exchangeSelections gs) u cs) \<and>
         t1 = t\<lparr>gameState := Some (gs\<lparr>exchangeSelections :=
                  Some (recordSelection (exchangeSelections gs) u cs)\<rparr>)\<rparr>"
  using assms unfolding applySubmit_def Let_def
  by (auto split: if_splits)

lemma resubmit:
  assumes "submitExchangeSelection lk cardIds now t = Done t1"
    and "gameState t1 = Some gs1" and "phase gs1 = Exchange" and "lk_user lk = Some u"
  shows "submitExchangeSelection lk cardIds now2 t1 = Done t1 \<and>
         (\<exists>ss. exchangeSelections gs1 = Some ss \<and>
            filter (\<lambda>s. sel_fromUserId s = u) ss = [\<lparr>sel_fromUserId = u, sel_cardIds = cardIds\<rparr>])"
proof -
  from submit_Done[OF assms(1)] assms(4) obtain gs myPair gp where
    gs: "gameState t = Some gs" "phase gs = Exchange"
    and mp: "List.find (\<lambda>p. fromUserId p = u) (case exchangePairs gs of None \<Rightarrow> [] | Some ps \<Rightarrow> ps) = Some myPair"
       "length cardIds = count_of myPair"
    and gp: "List.find (\<lambda>p. userId p = u) (gamePlayers t) = Some gp"
       "list_all (\<lambda>cid. cid \<in> set (hand gp)) cardIds"
    and ap: "applySubmit t gs (case exchangePairs gs of None \<Rightarrow> [] | Some ps \<Rightarrow> ps) u cardIds now = Done t1"
    by auto
  let ?new = "recordSelection (exchangeSelections gs) u cardIds"
  from applySubmit_pending[OF ap assms(2,3)]
  have nall: "\<not> allIn (case exchangePairs gs of None \<Rightarrow> [] | Some ps \<Rightarrow> ps) ?new"
    and t1: "t1 = t\<lparr>gameState := Some (gs\<lparr>exchangeSelections := Some ?new\<rparr>)\<rparr>"
    by simp_all
  from t1 assms(2) have gs1: "gs1 = gs\<lparr>exchangeSelections := Some ?new\<rparr>" by simp
  have lk: "lk_room lk" "lk_game lk = Some ''presidents''"
    using assms(1) unfolding submitExchangeSelection_def
    by (auto split: if_splits option.splits)
  have "applySubmit t1 gs1 (case exchangePairs gs of None \<Rightarrow> [] | Some ps \<Rightarrow> ps) u cardIds now2 = Done t1"
    using nall unfolding applySubmit_def Let_def gs1 t1
    by (simp add: recordSelection_again)
  then have "submitExchangeSelection lk cardIds now2 t1 = Done t1"
    unfolding submitExchangeSelection_def Let_def
    using lk assms(4) assms(2,3) mp gp gs1 t1 by simp
  moreover have "exchangeSelections gs1 = Some ?new" by (simp add: gs1)
  ultimately show ?thesis by (simp add: recordSelection_own)
qed



lemma applyRestart_state:
  assumes "applyRestart t gs rnd now = Done t'"
  shows "\<exists>gs'. gameState t' = Some gs' \<and>
     (let fo = (case finishedOrder gs of None \<Rightarrow> [] | Some f \<Rightarrow> f);
          pairs = buildExchangePairs fo (length (gamePlayers t));
          leader = (if fo \<noteq> [] then fo ! 0 else userId (sort_key seatIndex (gamePlayers t) ! 0))
      in phase gs' = (if pairs \<noteq> [] then Exchange else Play) \<and>
         exchangePairs gs' = (if pairs \<noteq> [] then Some pairs else None) \<and>
         roundLeaderId gs' = (if pairs \<noteq> [] then Some leader else None) \<and>
         currentTurnUserId gs' = Some leader \<and>
         exchangeSelections gs' = Some [] \<and> discardPile gs' = [] \<and> lastPlayedCount gs' = 0 \<and>
         lastPlayedRank gs' = None \<and> lastPlayedBy gs' = None \<and> passedUserIds gs' = [] \<and>
         finishedOrder gs' = None \<and> roundLoserId gs' = None)"
  using assms unfolding applyRestart_def Let_def
  by (auto split: if_splits)

section \<open>The handlers on the sample tables\<close>

lemmas sample_defs = request_def sample_table_def sample_state_def sample_players_def
  sample_exchange_def sample_ended_def

lemmas play_defs = playCards_def applyPlay_def Let_def twos_def nonTwos_def rankOf_def uniq_def
  playRankOf_def rankValue_def RANK_ORDER_def getNextPlayerToPlay_def handLenAfter_def
  patchPlayer_def

lemma sample_play:
  "playCards (request 11 Player) [''2S'', ''2H'', ''5C''] 9 sample_table = Done
    \<lparr>gameState = Some (sample_state\<lparr>currentTurnUserId := Some 13, turnNumber := 5,
        turnStartedAt := 9, discardPile := [''4S'', ''4H'', ''2S'', ''2H'', ''5C''],
        lastPlayedCount := 3, lastPlayedRank := Some CHR ''5'', lastPlayedBy := Some 11\<rparr>),
     gamePlayers =
       [\<lparr>gp_id = 0, userId = 11, seatIndex = 0, hand = [''9D'']\<rparr>,
        \<lparr>gp_id = 1, userId = 12, seatIndex = 1, hand = [''KH'', ''7C'']\<rparr>,
        \<lparr>gp_id = 2, userId = 13, seatIndex = 2, hand = [''6D'', ''3S'']\<rparr>]\<rparr>"
  by (simp add: sample_defs play_defs)

lemma sample_play_two: "playCards (request 11 Player) [''2S''] 9 sample_table = Rejected TwoAlone sample_table"
  by (simp add: sample_defs play_defs)

lemma sample_pass:
  "pass (request 11 Player) 9 sample_table = Done
    \<lparr>gameState = Some (sample_state\<lparr>currentTurnUserId := Some 13, turnNumber := 5,
        turnStartedAt := 9, lastPlayedCount := 0, lastPlayedRank := None, lastPlayedBy := None,
        passedUserIds := []\<rparr>),
     gamePlayers = sample_players\<rparr>"
  by (simp add: sample_defs pass_def applyPass_def Let_def getNextPlayerToPlay_def)

lemma sample_submit:
  "submitExchangeSelection (request 13 Player) [''3S''] 9 sample_exchange = Done
     (sample_exchange\<lparr>gameState := Some (the (gameState sample_exchange)\<lparr>exchangeSelections :=
        Some [\<lparr>sel_fromUserId = 13, sel_cardIds = [''3S'']\<rparr>]\<rparr>)\<rparr>)"
  by (simp add: sample_defs submitExchangeSelection_def applySubmit_def Let_def allIn_def
     recordSelection_def)


section \<open>Claims about restart\<close>

lemma buildExchangePairs_nonempty:
  "buildExchangePairs fo n \<noteq> [] \<longleftrightarrow> n \<le> length fo \<and> 2 \<le> n"
  unfolding buildExchangePairs_def Let_def by auto



section \<open>Claims about the turn counter, resubmission, rejection and pass\<close>

text \<open>
  C7 (as amended). Every accepted playCards, pass and restartRound, and every accepted
  submitExchangeSelection that completes the exchange (the phase becomes play), stores
  the prior turn number plus one. An accepted submission that does not complete the
  exchange leaves the turn number unchanged. So the counter never decreases.
\<close>

theorem turn_counter_steps:
  "(playCards lk cardIds now t = Done t' \<longrightarrow>
      turnOf t \<noteq> None \<and> turnOf t' = map_option Suc (turnOf t))
   \<and> (pass lk now t = Done t' \<longrightarrow>
      turnOf t \<noteq> None \<and> turnOf t' = map_option Suc (turnOf t))
   \<and> (restartRound lk rnd now t = Done t' \<longrightarrow>
      turnOf t \<noteq> None \<and> turnOf t' = map_option Suc (turnOf t))
   \<and> (submitExchangeSelection lk cardIds now t = Done t' \<longrightarrow>
      turnOf t \<noteq> None \<and>
      turnOf t' = (if map_option phase (gameState t') = Some Play
                   then map_option Suc (turnOf t) else turnOf t))"
  using playCards_turn pass_turn restartRound_turn submit_turn by blast

theorem turn_counter_steps_witness:
  "isDone (playCards (request 11 Player) [''2S'', ''2H'', ''5C''] 9 sample_table)
   \<and> turnOf (tableOf (playCards (request 11 Player) [''2S'', ''2H'', ''5C''] 9 sample_table))
       = map_option Suc (turnOf sample_table)
   \<and> isDone (submitExchangeSelection (request 13 Player) [''3S''] 9 sample_exchange)
   \<and> turnOf (tableOf (submitExchangeSelection (request 13 Player) [''3S''] 9 sample_exchange))
       = turnOf sample_exchange"
proof -
  let ?p = "playCards (request 11 Player) [''2S'', ''2H'', ''5C''] 9 sample_table"
  let ?s = "submitExchangeSelection (request 13 Player) [''3S''] 9 sample_exchange"
  obtain tp where tp: "?p = Done tp" using sample_play by blast
  obtain ts where ts: "?s = Done ts" using sample_submit by blast
  have ph: "map_option phase (gameState ts) = Some Exchange"
    using ts sample_submit by (auto simp: sample_defs)
  from turn_counter_steps[THEN conjunct1, rule_format, OF tp]
  have "turnOf tp = map_option Suc (turnOf sample_table)" by simp
  moreover
  from turn_counter_steps[THEN conjunct2, THEN conjunct2, THEN conjunct2, rule_format, OF ts]
  have "turnOf ts = (if map_option phase (gameState ts) = Some Play
                     then map_option Suc (turnOf sample_exchange) else turnOf sample_exchange)"
    by (rule conjunct2)
  with ph have "turnOf ts = turnOf sample_exchange" by auto
  ultimately show ?thesis using tp ts by (simp add: isDone_def tableOf_def)
qed

text \<open>
  C7 as stated fails: user 13's accepted submission in the sample exchange leaves the
  turn number at 4.
\<close>

theorem turn_counter_counterexample:
  "isDone (submitExchangeSelection (request 13 Player) [''3S''] 9 sample_exchange)
   \<and> turnOf sample_exchange = Some 4
   \<and> turnOf (tableOf (submitExchangeSelection (request 13 Player) [''3S''] 9 sample_exchange))
       \<noteq> Some (4 + 1)"
  by (simp add: sample_submit isDone_def tableOf_def turnOf_def) (simp add: sample_defs)

text \<open>
  C8. When an accepted submission leaves the exchange open, submitting the same selection
  again is accepted and leaves the table exactly as it is; and the stored selections
  hold exactly one entry for the giver, the submitted one.
\<close>

theorem resubmission_idempotent:
  assumes "submitExchangeSelection lk cardIds now t = Done t1"
    and "gameState t1 = Some gs1" and "phase gs1 = Exchange" and "lk_user lk = Some u"
  shows "submitExchangeSelection lk cardIds now2 t1 = Done t1 \<and>
         (\<exists>ss. exchangeSelections gs1 = Some ss \<and>
            filter (\<lambda>s. sel_fromUserId s = u) ss = [\<lparr>sel_fromUserId = u, sel_cardIds = cardIds\<rparr>])"
  using assms by (rule resubmit)

theorem resubmission_idempotent_witness:
  "isDone (submitExchangeSelection (request 13 Player) [''3S''] 9 sample_exchange)
   \<and> submitExchangeSelection (request 13 Player) [''3S''] 10
        (tableOf (submitExchangeSelection (request 13 Player) [''3S''] 9 sample_exchange))
      = Done (tableOf (submitExchangeSelection (request 13 Player) [''3S''] 9 sample_exchange))"
proof -
  let ?s = "submitExchangeSelection (request 13 Player) [''3S''] 9 sample_exchange"
  obtain ts where ts: "?s = Done ts" using sample_submit by blast
  obtain gs1 where gs1: "gameState ts = Some gs1" "phase gs1 = Exchange"
    using ts sample_submit by (auto simp: sample_defs)
  have u: "lk_user (request 13 Player) = Some 13" by (simp add: request_def)
  from resubmission_idempotent[OF ts gs1 u, of 10]
  show ?thesis using ts by (simp add: isDone_def tableOf_def)
qed

text \<open>
  C9. A request that is rejected leaves the table (the round-state record and every
  player's row) exactly as it was: no handler writes before it throws.
\<close>

theorem rejection_writes_nothing:
  "(playCards lk cardIds now t = Rejected e t' \<longrightarrow> t' = t)
   \<and> (pass lk now t = Rejected e t' \<longrightarrow> t' = t)
   \<and> (restartRound lk rnd now t = Rejected e t' \<longrightarrow> t' = t)
   \<and> (submitExchangeSelection lk cardIds now t = Rejected e t' \<longrightarrow> t' = t)"
  by (auto dest: playCards_rejected pass_rejected restartRound_rejected submit_rejected)

theorem rejection_writes_nothing_witness:
  "\<not> isDone (playCards (request 11 Player) [''2S''] 9 sample_table)
   \<and> tableOf (playCards (request 11 Player) [''2S''] 9 sample_table) = sample_table"
proof -
  obtain e t' where r: "playCards (request 11 Player) [''2S''] 9 sample_table = Rejected e t'"
    using sample_play_two by blast
  from rejection_writes_nothing[THEN conjunct1, rule_format, OF r]
  have "t' = sample_table" .
  with r show ?thesis by (simp add: isDone_def tableOf_def)
qed

text \<open>
  C10. An accepted pass leaves every player's row and the discard pile unchanged; of the
  round state only the turn fields, the standing play and the passed list can differ.
\<close>

theorem pass_frame:
  assumes "pass lk now t = Done t'"
  shows "gamePlayers t' = gamePlayers t \<and>
         (\<exists>gs gs'. gameState t = Some gs \<and> gameState t' = Some gs' \<and>
            discardPile gs' = discardPile gs \<and> phase gs' = phase gs \<and>
            finishedOrder gs' = finishedOrder gs \<and> roundLoserId gs' = roundLoserId gs \<and>
            exchangePairs gs' = exchangePairs gs \<and>
            exchangeSelections gs' = exchangeSelections gs \<and>
            roundLeaderId gs' = roundLeaderId gs)"
proof -
  from pass_Done[OF assms] obtain u gs where
    "gameState t = Some gs" "applyPass t gs u now = Done t'" by blast
  then show ?thesis using applyPass_frame by blast
qed

theorem pass_frame_witness:
  "isDone (pass (request 11 Player) 9 sample_table)
   \<and> gamePlayers (tableOf (pass (request 11 Player) 9 sample_table)) = gamePlayers sample_table
   \<and> map_option discardPile (gameState (tableOf (pass (request 11 Player) 9 sample_table)))
       = map_option discardPile (gameState sample_table)"
proof -
  obtain t' where d: "pass (request 11 Player) 9 sample_table = Done t'"
    using sample_pass by blast
  from pass_frame[OF d] d show ?thesis
    by (auto simp: isDone_def tableOf_def)
qed

section \<open>Claims about the legality of a play\<close>

lemma removeEach_mset: "removeEach h cs = Some h' \<Longrightarrow> mset h' = mset h - mset cs"
  by (induction cs arbitrary: h) (auto split: if_splits)

lemma removeEach_Some_iff: "(removeEach h cs \<noteq> None) \<longleftrightarrow> mset cs \<subseteq># mset h"
proof (induction cs arbitrary: h)
  case Nil
  then show ?case by simp
next
  case (Cons c cs)
  show ?case
  proof (cases "c \<in> set h")
    case True
    then show ?thesis
      using Cons.IH[of "remove1 c h"] by (simp add: insert_subset_eq_iff)
  next
    case False
    then have "\<not> add_mset c (mset cs) \<subseteq># mset h"
      by (metis insert_subset_eq_iff set_mset_mset)
    with False show ?thesis by simp
  qed
qed

lemma length_filter_all: "length (filter P xs) = length xs \<longleftrightarrow> (\<forall>x\<in>set xs. P x)"
proof (induction xs)
  case Nil
  then show ?case by simp
next
  case (Cons x xs)
  have "length (filter P xs) \<le> length xs" by simp
  then have "length (filter P xs) \<noteq> Suc (length xs)" by linarith
  with Cons show ?case by auto
qed

lemma twos_all: "length (twos cs) = length cs \<longleftrightarrow> (\<forall>c\<in>set cs. rankOf c = Some CHR ''2'')"
  unfolding twos_def using length_filter_all[of "\<lambda>r. r = Some CHR ''2''" "map rankOf cs"]
  by simp

lemma length_uniq: "length (uniq xs) = card (set xs)"
  by (simp add: uniq_def length_remdups_card_conv)

lemma playCards_isDone_iff:
  assumes "lk_room lk" "lk_user lk = Some u" "lk_game lk = Some ''presidents''"
    and "gameState t = Some gs"
  shows "isDone (playCards lk cardIds now t) \<longleftrightarrow>
     phase gs = Play \<and> currentTurnUserId gs = Some u \<and>
     (\<exists>gp. List.find (\<lambda>p. userId p = u) (gamePlayers t) = Some gp \<and>
           mset cardIds \<subseteq># mset (hand gp)) \<and>
     card (set (nonTwos cardIds)) \<le> 1 \<and>
     \<not> (\<forall>c\<in>set cardIds. rankOf c = Some CHR ''2'') \<and>
     (lastPlayedCount gs = 0 \<or>
        (lastPlayedCount gs \<le> length cardIds \<and>
         rankValue (playRankOf cardIds) \<le> rankValue (lastPlayedRank gs)))"
proof (cases "phase gs = Play \<and> currentTurnUserId gs = Some u")
  case False
  then have "\<not> isDone (playCards lk cardIds now t)"
    using assms unfolding playCards_def isDone_def
    by (cases "phase gs") (auto split: option.splits)
  with False show ?thesis by blast
next
  case pt: True
  show ?thesis
  proof (cases "List.find (\<lambda>p. userId p = u) (gamePlayers t)")
    case None
    then have "\<not> isDone (playCards lk cardIds now t)"
      using assms pt unfolding playCards_def isDone_def by simp
    with None show ?thesis by simp
  next
    case (Some gp)
    show ?thesis
    proof (cases "removeEach (hand gp) cardIds")
      case None
      then have "\<not> isDone (playCards lk cardIds now t)"
        using assms pt Some unfolding playCards_def isDone_def by simp
      moreover from None have "\<not> mset cardIds \<subseteq># mset (hand gp)"
        using removeEach_Some_iff[of "hand gp" cardIds] by simp
      ultimately show ?thesis using Some by simp
    next
      case (Some newHand)
      then have sub: "mset cardIds \<subseteq># mset (hand gp)"
        using removeEach_Some_iff[of "hand gp" cardIds] by simp
      have ap: "isDone (applyPlay t gs gp u cardIds newHand now)"
        using applyPlay_not_rejected[OF \<open>List.find (\<lambda>p. userId p = u) (gamePlayers t) = Some gp\<close>,
            of gs cardIds newHand now]
        by (cases "applyPlay t gs gp u cardIds newHand now") (auto simp: isDone_def)
      have e: "cardIds = [] \<Longrightarrow> (\<forall>c\<in>set cardIds. rankOf c = Some CHR ''2'')" by simp
      show ?thesis
        using assms pt \<open>List.find (\<lambda>p. userId p = u) (gamePlayers t) = Some gp\<close> Some sub ap e
        unfolding playCards_def
        by (simp add: twos_all length_uniq isDone_def not_less not_le)
    qed
  qed
qed

lemma applyPlay_standing:
  assumes "applyPlay t gs gp u cardIds newHand now = Done t'"
  shows "\<exists>gs'. gameState t' = Some gs' \<and>
     (lastPlayedCount gs' \<noteq> 0 \<longrightarrow>
        lastPlayedCount gs' = length cardIds \<and> lastPlayedRank gs' = playRankOf cardIds \<and>
        lastPlayedBy gs' = Some u)"
  using assms unfolding applyPlay_def Let_def
  by (auto split: sum.splits if_splits)

lemma two_alone_rejected: "\<not> isDone (playCards lk [''2S''] now t)"
  unfolding playCards_def isDone_def
  by (simp add: twos_def rankOf_def split: option.splits)

text \<open>The code's rank helpers against the specification's words.\<close>

lemma spec_rank_rankOf: "spec_rank c = rankOf c"
  by (cases c) (simp_all add: spec_rank_def rankOf_def)

lemma rankValue_strength:
  "rankValue r = (if spec_strength r = 0 then 999 else 13 - spec_strength r)"
proof (cases r)
  case None
  then show ?thesis by (simp add: rankValue_def)
next
  case (Some c)
  show ?thesis unfolding Some rankValue_def RANK_ORDER_def by simp
qed

lemma spec_strength_le_13: "spec_strength r \<le> 13"
  by (cases r) simp_all

lemma rankValue_le_iff:
  "rankValue r \<le> rankValue s \<longleftrightarrow> spec_same_or_stronger r s"
proof -
  have "spec_strength r \<le> 13" "spec_strength s \<le> 13"
    by (rule spec_strength_le_13)+
  then show ?thesis
    unfolding rankValue_strength spec_same_or_stronger_def by auto
qed

lemma set_nonTwos: "set (nonTwos cardIds) = spec_real_ranks cardIds"
  unfolding nonTwos_def spec_real_ranks_def spec_wild_def
  by (auto simp: spec_rank_rankOf)

lemma wild_only_iff:
  "(\<forall>c\<in>set cardIds. rankOf c = Some CHR ''2'') \<longleftrightarrow> (\<forall>c\<in>set cardIds. spec_wild c)"
  by (simp add: spec_wild_def spec_rank_rankOf)

lemma wild_only_real_ranks:
  "(\<forall>c\<in>set cardIds. spec_wild c) \<longleftrightarrow> spec_real_ranks cardIds = {}"
  unfolding spec_real_ranks_def by auto

lemma set_uniq: "set (uniq xs) = set xs"
  by (simp add: uniq_def)

lemma playRankOf_real:
  assumes "spec_real_ranks cardIds \<noteq> {}"
  shows "playRankOf cardIds \<in> spec_real_ranks cardIds"
proof (cases "uniq (nonTwos cardIds)")
  case Nil
  then have "set (nonTwos cardIds) = {}" using set_uniq[of "nonTwos cardIds"] by simp
  with assms show ?thesis by (simp add: set_nonTwos)
next
  case (Cons r rs)
  then have "r \<in> set (uniq (nonTwos cardIds))" by simp
  then have "r \<in> spec_real_ranks cardIds" by (simp add: set_uniq set_nonTwos)
  moreover have "playRankOf cardIds = r" by (simp add: playRankOf_def Cons)
  ultimately show ?thesis by simp
qed

lemma effective_rank_iff:
  assumes one: "card (spec_real_ranks cardIds) \<le> 1" and some: "spec_real_ranks cardIds \<noteq> {}"
  shows "spec_effective_rank cardIds r \<longleftrightarrow> r = playRankOf cardIds"
proof -
  have fin: "finite (spec_real_ranks cardIds)" by (simp add: spec_real_ranks_def)
  with one some have "card (spec_real_ranks cardIds) = 1"
    using card_0_eq[of "spec_real_ranks cardIds"] by linarith
  then obtain x where x: "spec_real_ranks cardIds = {x}" by (auto simp: card_1_singleton_iff)
  from playRankOf_real[OF some] x have "playRankOf cardIds = x" by simp
  then show ?thesis unfolding spec_effective_rank_def x by auto
qed

lemma playCards_accepted_spec:
  assumes "lk_room lk" "lk_user lk = Some u" "lk_game lk = Some ''presidents''"
    and "gameState t = Some gs"
  shows "isDone (playCards lk cardIds now t) \<longleftrightarrow>
     phase gs = Play \<and> currentTurnUserId gs = Some u \<and>
     (\<exists>gp. List.find (\<lambda>p. userId p = u) (gamePlayers t) = Some gp \<and>
           mset cardIds \<subseteq># mset (hand gp)) \<and>
     card (spec_real_ranks cardIds) \<le> 1 \<and>
     \<not> (\<forall>c\<in>set cardIds. spec_wild c) \<and>
     (lastPlayedCount gs = 0 \<or>
        (lastPlayedCount gs \<le> length cardIds \<and>
         (\<exists>r. spec_effective_rank cardIds r \<and> spec_same_or_stronger r (lastPlayedRank gs))))"
proof (cases "card (spec_real_ranks cardIds) \<le> 1 \<and> spec_real_ranks cardIds \<noteq> {}")
  case True
  then have eff: "\<And>r. spec_effective_rank cardIds r \<longleftrightarrow> r = playRankOf cardIds"
    using effective_rank_iff by blast
  have "(\<exists>r. spec_effective_rank cardIds r \<and> spec_same_or_stronger r (lastPlayedRank gs))
      \<longleftrightarrow> rankValue (playRankOf cardIds) \<le> rankValue (lastPlayedRank gs)"
    by (simp add: eff rankValue_le_iff)
  then show ?thesis
    unfolding playCards_isDone_iff[OF assms] wild_only_iff set_nonTwos by simp
next
  case False
  then show ?thesis
    unfolding playCards_isDone_iff[OF assms] wild_only_iff set_nonTwos wild_only_real_ranks
    by blast
qed

lemma playCards_Done_legal:
  assumes "playCards lk cardIds now t = Done t'"
  shows "card (spec_real_ranks cardIds) \<le> 1 \<and> spec_real_ranks cardIds \<noteq> {}"
proof -
  from assms have "\<not> length (twos cardIds) = length cardIds
      \<and> \<not> 1 < length (uniq (nonTwos cardIds))"
    unfolding playCards_def
    by (simp split: if_splits option.splits add: phase_Play)
  then show ?thesis
    by (simp add: twos_all length_uniq set_nonTwos wild_only_iff wild_only_real_ranks not_less)
qed

lemma playCards_standing_spec:
  assumes d: "playCards lk cardIds now t = Done t'" and u: "lk_user lk = Some u"
  shows "\<exists>gs'. gameState t' = Some gs' \<and>
     (lastPlayedCount gs' \<noteq> 0 \<longrightarrow>
        lastPlayedCount gs' = length cardIds \<and>
        spec_effective_rank cardIds (lastPlayedRank gs') \<and>
        lastPlayedBy gs' = Some u)"
proof -
  from playCards_Done[OF d] u obtain gs0 gp newHand where
    ap: "applyPlay t gs0 gp u cardIds newHand now = Done t'" by auto
  from playCards_Done_legal[OF d]
  have legal: "card (spec_real_ranks cardIds) \<le> 1" "spec_real_ranks cardIds \<noteq> {}"
    by simp_all
  from applyPlay_standing[OF ap] obtain gs' where
    gs': "gameState t' = Some gs'"
    "lastPlayedCount gs' \<noteq> 0 \<longrightarrow>
        lastPlayedCount gs' = length cardIds \<and> lastPlayedRank gs' = playRankOf cardIds \<and>
        lastPlayedBy gs' = Some u" by blast
  show ?thesis
    using gs' effective_rank_iff[OF legal] by auto
qed

lemma spec_real_ranks_list:
  "spec_real_ranks cardIds = set (map spec_rank (filter (\<lambda>c. \<not> spec_wild c) cardIds))"
  by (auto simp: spec_real_ranks_def)

lemma wild_five:
  "card (spec_real_ranks [''2S'', ''2H'', ''5C'']) \<le> 1
   \<and> \<not> (\<forall>c\<in>set [''2S'', ''2H'', ''5C'']. spec_wild c)
   \<and> spec_effective_rank [''2S'', ''2H'', ''5C''] (Some CHR ''5'')
   \<and> playRankOf [''2S'', ''2H'', ''5C''] = Some CHR ''5''
   \<and> length [''2S'', ''2H'', ''5C''] = 3"
proof -
  have r: "spec_real_ranks [''2S'', ''2H'', ''5C''] = {Some CHR ''5''}"
    by (simp add: spec_real_ranks_list spec_wild_def spec_rank_def)
  show ?thesis
    unfolding r spec_effective_rank_def
    by (simp add: spec_wild_def spec_rank_def playRankOf_def nonTwos_def uniq_def rankOf_def)
qed

text \<open>
  C2. For a request whose lookups resolve (room, user \<open>u\<close>, an active Presidents game and
  its round state), the play is accepted if and only if: the phase is play; \<open>u\<close> holds
  the turn; \<open>u\<close> is seated and the selection is a sub-multiset of the hand; after
  removing the wildcard 2s the selection contains at most one distinct rank; the
  selection is not made of wildcards only (which also excludes the empty selection);
  and the table is clear, or the selection has at least the standing count and its
  effective rank, the unique rank it holds besides 2, is the same as or stronger than
  the standing rank in the order 2, A, K, Q, J, T, 9, 8, 7, 6, 5, 4, 3 from strongest to
  weakest. The conditions on the ranks are stated with \<open>spec_rank\<close>, \<open>spec_wild\<close>,
  \<open>spec_real_ranks\<close>, \<open>spec_effective_rank\<close> and \<open>spec_same_or_stronger\<close>, which are
  written from the specification and not from the handler. An accepted play that
  leaves a standing play records the selection's size, its effective rank and its
  author. A play of 2S alone is rejected in every state; 2S, 2H, 5C passes the
  selection checks with effective rank 5 and size 3.
\<close>

theorem play_accepted_iff:
  assumes "lk_room lk" "lk_user lk = Some u" "lk_game lk = Some ''presidents''"
    and "gameState t = Some gs"
  shows "(isDone (playCards lk cardIds now t) \<longleftrightarrow>
           phase gs = Play \<and> currentTurnUserId gs = Some u \<and>
           (\<exists>gp. List.find (\<lambda>p. userId p = u) (gamePlayers t) = Some gp \<and>
                 mset cardIds \<subseteq># mset (hand gp)) \<and>
           card (spec_real_ranks cardIds) \<le> 1 \<and>
           \<not> (\<forall>c\<in>set cardIds. spec_wild c) \<and>
           (lastPlayedCount gs = 0 \<or>
              (lastPlayedCount gs \<le> length cardIds \<and>
               (\<exists>r. spec_effective_rank cardIds r \<and>
                    spec_same_or_stronger r (lastPlayedRank gs)))))
       \<and> (\<forall>t'. playCards lk cardIds now t = Done t' \<longrightarrow>
             (\<exists>gs'. gameState t' = Some gs' \<and>
                (lastPlayedCount gs' \<noteq> 0 \<longrightarrow>
                   lastPlayedCount gs' = length cardIds \<and>
                   spec_effective_rank cardIds (lastPlayedRank gs') \<and>
                   lastPlayedBy gs' = Some u)))
       \<and> \<not> isDone (playCards lk2 [''2S''] now2 t2)
       \<and> card (spec_real_ranks [''2S'', ''2H'', ''5C'']) \<le> 1
       \<and> \<not> (\<forall>c\<in>set [''2S'', ''2H'', ''5C'']. spec_wild c)
       \<and> spec_effective_rank [''2S'', ''2H'', ''5C''] (Some CHR ''5'')
       \<and> playRankOf [''2S'', ''2H'', ''5C''] = Some CHR ''5''
       \<and> length [''2S'', ''2H'', ''5C''] = 3"
proof -
  have st: "\<forall>t'. playCards lk cardIds now t = Done t' \<longrightarrow>
             (\<exists>gs'. gameState t' = Some gs' \<and>
                (lastPlayedCount gs' \<noteq> 0 \<longrightarrow>
                   lastPlayedCount gs' = length cardIds \<and>
                   spec_effective_rank cardIds (lastPlayedRank gs') \<and>
                   lastPlayedBy gs' = Some u))"
    using playCards_standing_spec[OF _ assms(2)] by blast
  show ?thesis
    using playCards_accepted_spec[OF assms, of cardIds now] st two_alone_rejected[of lk2 now2 t2]
      wild_five
    by blast
qed

theorem play_accepted_iff_witness:
  "isDone (playCards (request 11 Player) [''2S'', ''2H'', ''5C''] 9 sample_table)
   \<and> map_option lastPlayedCount
        (gameState (tableOf (playCards (request 11 Player) [''2S'', ''2H'', ''5C''] 9 sample_table)))
       = Some 3
   \<and> map_option lastPlayedRank
        (gameState (tableOf (playCards (request 11 Player) [''2S'', ''2H'', ''5C''] 9 sample_table)))
       = Some (Some CHR ''5'')
   \<and> \<not> isDone (playCards (request 11 Player) [''2S''] 9 sample_table)
   \<and> \<not> isDone (playCards (request 11 Player) [''3C''] 9 sample_table)"
proof -
  have lk: "lk_room (request 11 Player)" "lk_user (request 11 Player) = Some 11"
    "lk_game (request 11 Player) = Some ''presidents''"
    by (simp_all add: request_def)
  have gs: "gameState sample_table = Some sample_state" by (simp add: sample_table_def)
  note main = play_accepted_iff[OF lk gs, of "[''2S'', ''2H'', ''5C'']" 9 "request 11 Player" 9 sample_table]
  note weak = play_accepted_iff[OF lk gs, of "[''3C'']" 9 "request 11 Player" 9 sample_table]
  have r5: "spec_real_ranks [''2S'', ''2H'', ''5C''] = {Some CHR ''5''}"
    by (simp add: spec_real_ranks_list spec_wild_def spec_rank_def)
  have r3: "spec_real_ranks [''3C''] = {Some CHR ''3''}"
    by (simp add: spec_real_ranks_list spec_wild_def spec_rank_def)
  have e5: "spec_effective_rank [''2S'', ''2H'', ''5C''] (Some CHR ''5'')
      \<and> spec_same_or_stronger (Some CHR ''5'') (lastPlayedRank sample_state)"
    unfolding spec_effective_rank_def r5 by (simp add: spec_same_or_stronger_def sample_defs)
  have rhs: "phase sample_state = Play \<and> currentTurnUserId sample_state = Some 11 \<and>
           (\<exists>gp. List.find (\<lambda>p. userId p = 11) (gamePlayers sample_table) = Some gp \<and>
                 mset [''2S'', ''2H'', ''5C''] \<subseteq># mset (hand gp)) \<and>
           lastPlayedCount sample_state \<le> length [''2S'', ''2H'', ''5C'']"
    by (simp add: sample_defs)
  from main rhs e5 have acc: "isDone (playCards (request 11 Player) [''2S'', ''2H'', ''5C''] 9 sample_table)"
    by blast
  then obtain t' where d: "playCards (request 11 Player) [''2S'', ''2H'', ''5C''] 9 sample_table = Done t'"
    by (cases "playCards (request 11 Player) [''2S'', ''2H'', ''5C''] 9 sample_table")
       (auto simp: isDone_def)
  have t': "t' = tableOf (playCards (request 11 Player) [''2S'', ''2H'', ''5C''] 9 sample_table)"
    by (simp add: d tableOf_def)
  have "map_option lastPlayedCount (gameState t') = Some 3
      \<and> map_option lastPlayedRank (gameState t') = Some (Some CHR ''5'')"
    using d sample_play by (auto simp: sample_state_def)
  moreover have "\<not> (\<exists>r. spec_effective_rank [''3C''] r
        \<and> spec_same_or_stronger r (lastPlayedRank sample_state))"
    unfolding spec_effective_rank_def r3 by (simp add: spec_same_or_stronger_def sample_defs)
  then have "\<not> isDone (playCards (request 11 Player) [''3C''] 9 sample_table)"
    using weak by (simp add: sample_defs)
  ultimately show ?thesis using acc main t' by simp
qed

section \<open>The rotation search\<close>

lemma find_None_set: "List.find P xs = None \<longleftrightarrow> (\<forall>x\<in>set xs. \<not> P x)"
  by (induction xs) auto

lemma findIndex_Some: "findIndex P xs = Some i \<Longrightarrow> i < length xs \<and> P (xs ! i)"
  by (induction xs arbitrary: i) (auto split: if_splits)

lemma sorted_nth_mem: "k < length ps \<Longrightarrow> sort_key f ps ! k \<in> set ps"
  by (metis length_sort nth_mem set_sort)

lemma sorted_nth_ex: "x \<in> set ps \<Longrightarrow> \<exists>j<length ps. x = sort_key f ps ! j"
  by (metis in_set_conv_nth length_sort set_sort)

lemma rotation_mem:
  assumes "i < length ps"
  shows "sort_key f ps ! ((idx + i) mod length ps) \<in> set ps"
proof -
  from assms have "0 < length ps" by (cases ps) auto
  then have "(idx + i) mod length ps < length ps" by simp
  then show ?thesis by (rule sorted_nth_mem)
qed

lemma rotation_covers:
  fixes idx n j :: nat
  assumes "idx < n" "j < n" "j \<noteq> idx"
  shows "\<exists>i\<in>{1..<n}. (idx + i) mod n = j"
proof (cases "idx < j")
  case True
  then have "j - idx \<in> {1..<n}" "(idx + (j - idx)) mod n = j" using assms by auto
  then show ?thesis by blast
next
  case False
  with assms have lt: "j < idx" by simp
  then have "n + j - idx \<in> {1..<n}" using assms by auto
  moreover have "(idx + (n + j - idx)) mod n = j" using assms lt by simp
  ultimately show ?thesis by blast
qed

text \<open>
  For a seated current user the search returns a seated user other than the current one
  who has neither passed nor is skipped, and returns nothing exactly when there is none.
\<close>

lemma getNext_Some:
  assumes "getNextPlayerToPlay ps u passed skip = Inr (Some v)" "u \<in> userId ` set ps"
  shows "v \<in> userId ` set ps \<and> v \<noteq> u \<and> v \<notin> set passed \<and> v \<notin> set skip"
proof -
  let ?sorted = "sort_key seatIndex ps"
  from assms(2) have "\<exists>x\<in>set ?sorted. userId x = u" by auto
  then obtain idx where idx: "findIndex (\<lambda>p. userId p = u) ?sorted = Some idx"
    using findIndex_None_iff[of "\<lambda>p. userId p = u" ?sorted] by auto
  let ?cands = "map (\<lambda>i. ?sorted ! ((idx + i) mod length ?sorted)) [1..<length ?sorted]"
  let ?P = "\<lambda>next. userId next \<noteq> u \<and> userId next \<notin> set passed \<and> userId next \<notin> set skip"
  from assms(1) idx obtain p where p: "List.find ?P ?cands = Some p" "userId p = v"
    by (auto simp: getNextPlayerToPlay_def Let_def)
  from find_Some_set[OF p(1)] have "p \<in> set ?cands" "?P p" by auto
  moreover have "set ?cands \<subseteq> set ?sorted"
  proof
    fix x assume "x \<in> set ?cands"
    then obtain i where "x = ?sorted ! ((idx + i) mod length ?sorted)" "i \<in> {1..<length ?sorted}"
      by auto
    then show "x \<in> set ?sorted" by (auto intro!: rotation_mem)
  qed
  ultimately show ?thesis using p(2) by auto
qed

lemma getNext_None_iff:
  assumes "u \<in> userId ` set ps"
  shows "getNextPlayerToPlay ps u passed skip = Inr None \<longleftrightarrow>
         (\<forall>p\<in>set ps. userId p = u \<or> userId p \<in> set passed \<or> userId p \<in> set skip)"
proof -
  let ?sorted = "sort_key seatIndex ps"
  let ?n = "length ?sorted"
  from assms have "\<exists>x\<in>set ?sorted. userId x = u" by auto
  then obtain idx where idx: "findIndex (\<lambda>p. userId p = u) ?sorted = Some idx"
    using findIndex_None_iff[of "\<lambda>p. userId p = u" ?sorted] by auto
  from findIndex_Some[OF idx] have idxn: "idx < ?n" and idxu: "userId (?sorted ! idx) = u"
    by auto
  let ?cands = "map (\<lambda>i. ?sorted ! ((idx + i) mod ?n)) [1..<?n]"
  let ?P = "\<lambda>next. userId next \<noteq> u \<and> userId next \<notin> set passed \<and> userId next \<notin> set skip"
  have eq: "getNextPlayerToPlay ps u passed skip = Inr (map_option userId (List.find ?P ?cands))"
    using idx by (simp add: getNextPlayerToPlay_def Let_def)
  have "(\<forall>x\<in>set ?cands. \<not> ?P x) \<longleftrightarrow> (\<forall>x\<in>set ?sorted. \<not> ?P x)"
  proof
    assume a: "\<forall>x\<in>set ?cands. \<not> ?P x"
    show "\<forall>x\<in>set ?sorted. \<not> ?P x"
    proof
      fix x assume "x \<in> set ?sorted"
      then obtain j where j: "j < ?n" "x = ?sorted ! j" using sorted_nth_ex[of x ps seatIndex] by auto
      show "\<not> ?P x"
      proof (cases "j = idx")
        case True
        with j idxu show ?thesis by simp
      next
        case False
        from rotation_covers[OF idxn j(1) False] obtain i where
          "i \<in> {1..<?n}" "(idx + i) mod ?n = j" by blast
        then have "x \<in> set ?cands" using j(2) by (auto simp: image_iff)
        with a show ?thesis by blast
      qed
    qed
  next
    assume a: "\<forall>x\<in>set ?sorted. \<not> ?P x"
    have "set ?cands \<subseteq> set ?sorted"
    proof
      fix x assume "x \<in> set ?cands"
      then obtain i where "x = ?sorted ! ((idx + i) mod ?n)" "i \<in> {1..<?n}" by auto
      then show "x \<in> set ?sorted" by (auto intro!: rotation_mem)
    qed
    with a show "\<forall>x\<in>set ?cands. \<not> ?P x" by blast
  qed
  then have "List.find ?P ?cands = None \<longleftrightarrow> (\<forall>x\<in>set ps. \<not> ?P x)"
    by (simp add: find_None_set)
  with eq show ?thesis by auto
qed

lemma getNext_Inr:
  assumes "u \<in> userId ` set ps"
  shows "\<exists>r. getNextPlayerToPlay ps u passed skip = Inr r"
proof -
  from assms have "\<exists>x\<in>set (sort_key seatIndex ps). userId x = u" by auto
  then have "findIndex (\<lambda>p. userId p = u) (sort_key seatIndex ps) \<noteq> None"
    by (simp add: findIndex_None_iff)
  then show ?thesis by (auto simp: getNextPlayerToPlay_def Let_def)
qed

section \<open>Patched rows\<close>

lemma patchPlayer_userId:
  "(\<And>p. userId (f p) = userId p) \<Longrightarrow> map userId (patchPlayer pid f ps) = map userId ps"
  by (induction ps) (auto simp: patchPlayer_def)

lemma patchPlayer_gp_id:
  "(\<And>p. gp_id (f p) = gp_id p) \<Longrightarrow> map gp_id (patchPlayer pid f ps) = map gp_id ps"
  by (induction ps) (auto simp: patchPlayer_def)

lemma patchPlayer_length [simp]: "length (patchPlayer pid f ps) = length ps"
  by (simp add: patchPlayer_def)

lemma find_userId_unique:
  assumes "distinct (map userId ps)" "p \<in> set ps"
  shows "List.find (\<lambda>q. userId q = userId p) ps = Some p"
  using assms by (induction ps) (auto simp: image_iff)

lemma same_id_same_row:
  assumes "distinct (map gp_id ps)" "p \<in> set ps" "q \<in> set ps" "gp_id p = gp_id q"
  shows "p = q"
  using assms by (meson distinct_map inj_on_def)

lemma same_user_same_row:
  assumes "distinct (map userId ps)" "p \<in> set ps" "q \<in> set ps" "userId p = userId q"
  shows "p = q"
  using assms by (meson distinct_map inj_on_def)

text \<open>With distinct row ids a patch changes exactly the row it names.\<close>

lemma patchPlayer_row:
  assumes "distinct (map gp_id ps)" "gp \<in> set ps"
  shows "patchPlayer (gp_id gp) f ps = map (\<lambda>p. if p = gp then f gp else p) ps"
  unfolding patchPlayer_def
  using same_id_same_row[OF assms(1) _ assms(2)] by (auto intro!: map_cong)

lemma holders_after_play:
  "holders (patchPlayer (gp_id gp) (\<lambda>p. p\<lparr>hand := newHand\<rparr>) ps)
     = length (filter (\<lambda>c. c > 0) (map (handLenAfter gp newHand) ps))"
  by (induction ps) (auto simp: holders_def patchPlayer_def handLenAfter_def)

lemma holders_remove:
  assumes "distinct (map gp_id ps)" "gp \<in> set ps" "hand gp \<noteq> []"
  shows "holders (patchPlayer (gp_id gp) (\<lambda>p. p\<lparr>hand := newHand\<rparr>) ps)
           = (if newHand = [] then holders ps - 1 else holders ps)"
  using assms
proof (induction ps)
  case Nil
  then show ?case by simp
next
  case (Cons a ps)
  show ?case
  proof (cases "a = gp")
    case True
    with Cons.prems have "\<forall>p\<in>set ps. gp_id p \<noteq> gp_id gp" by (auto simp: image_iff)
    then have "patchPlayer (gp_id gp) (\<lambda>p. p\<lparr>hand := newHand\<rparr>) ps = ps"
      by (auto simp: patchPlayer_def intro: map_idI)
    with True Cons.prems(3) show ?thesis
      by (simp add: holders_def patchPlayer_def)
  next
    case False
    with Cons.prems have gp: "gp \<in> set ps" "distinct (map gp_id ps)" "gp_id a \<noteq> gp_id gp"
      by auto
    from gp(1) Cons.prems(3) have "0 < holders ps"
      by (auto simp: holders_def filter_empty_conv)
    with Cons.IH[OF gp(2) gp(1) Cons.prems(3)] gp(3) show ?thesis
      by (auto simp: holders_def patchPlayer_def)
  qed
qed

lemma removeEach_nonempty:
  assumes "removeEach h cs = Some h'" "cs \<noteq> []"
  shows "h \<noteq> []"
  using assms by (cases cs) (auto split: if_splits)

section \<open>An accepted play keeps the invariant\<close>

lemma invD:
  assumes "inv t" "gameState t = Some gs"
  shows "distinct (map userId (gamePlayers t))" "distinct (map gp_id (gamePlayers t))"
    "2 \<le> length (gamePlayers t)"
    "\<And>c. currentTurnUserId gs = Some c \<Longrightarrow> c \<in> userId ` set (gamePlayers t)"
    "\<And>v. lastPlayedBy gs = Some v \<Longrightarrow> v \<in> userId ` set (gamePlayers t)"
    "phase gs = Play \<Longrightarrow> inv_play (gamePlayers t) gs"
    "phase gs = RoundEnded \<Longrightarrow> inv_ended (gamePlayers t) gs"
    "phase gs = Exchange \<Longrightarrow> inv_exchange (gamePlayers t) gs"
  using assms unfolding inv_def by auto

lemma invI:
  assumes "gameState t = Some gs"
    "distinct (map userId (gamePlayers t))" "distinct (map gp_id (gamePlayers t))"
    "2 \<le> length (gamePlayers t)"
    "\<And>c. currentTurnUserId gs = Some c \<Longrightarrow> c \<in> userId ` set (gamePlayers t)"
    "\<And>v. lastPlayedBy gs = Some v \<Longrightarrow> v \<in> userId ` set (gamePlayers t)"
    "phase gs = Play \<Longrightarrow> inv_play (gamePlayers t) gs"
    "phase gs = RoundEnded \<Longrightarrow> inv_ended (gamePlayers t) gs"
    "phase gs = Exchange \<Longrightarrow> inv_exchange (gamePlayers t) gs"
  shows "inv t"
  using assms unfolding inv_def by auto

lemma holders_pos_ex: "0 < holders ps \<longleftrightarrow> (\<exists>p\<in>set ps. hand p \<noteq> [])"
  by (auto simp: holders_def filter_empty_conv)

text \<open>The facts about an accepted play that the later proofs share.\<close>

lemma play_facts:
  assumes inv: "inv t" and gs: "gameState t = Some gs" "phase gs = Play"
      "currentTurnUserId gs = Some u"
    and gp: "List.find (\<lambda>p. userId p = u) (gamePlayers t) = Some gp"
    and rm: "removeEach (hand gp) cs = Some newHand" "cs \<noteq> []"
  shows "gp \<in> set (gamePlayers t)" "userId gp = u" "hand gp \<noteq> []"
    "2 \<le> holders (gamePlayers t)"
    "holders (patchPlayer (gp_id gp) (\<lambda>p. p\<lparr>hand := newHand\<rparr>) (gamePlayers t))
       = (if newHand = [] then holders (gamePlayers t) - 1 else holders (gamePlayers t))"
    "\<forall>p'\<in>set (patchPlayer (gp_id gp) (\<lambda>p. p\<lparr>hand := newHand\<rparr>) (gamePlayers t)).
        (userId p' = u \<and> hand p' = newHand) \<or> (p' \<in> set (gamePlayers t) \<and> userId p' \<noteq> u)"
    "\<forall>p\<in>set (gamePlayers t). userId p \<noteq> u \<longrightarrow>
        p \<in> set (patchPlayer (gp_id gp) (\<lambda>p. p\<lparr>hand := newHand\<rparr>) (gamePlayers t))"
proof -
  note d = invD[OF inv gs(1)]
  from find_Some_set[OF gp] show gpin: "gp \<in> set (gamePlayers t)" and gpu: "userId gp = u"
    by auto
  from removeEach_nonempty[OF rm] show hne: "hand gp \<noteq> []" .
  from d(6)[OF gs(2)] gs(3) gpin gpu hne show "2 \<le> holders (gamePlayers t)"
    unfolding inv_play_def by auto
  from holders_remove[OF d(2) gpin hne]
  show "holders (patchPlayer (gp_id gp) (\<lambda>p. p\<lparr>hand := newHand\<rparr>) (gamePlayers t))
       = (if newHand = [] then holders (gamePlayers t) - 1 else holders (gamePlayers t))" .
  have row: "patchPlayer (gp_id gp) (\<lambda>p. p\<lparr>hand := newHand\<rparr>) (gamePlayers t)
      = map (\<lambda>p. if p = gp then gp\<lparr>hand := newHand\<rparr> else p) (gamePlayers t)"
    by (rule patchPlayer_row[OF d(2) gpin])
  show "\<forall>p'\<in>set (patchPlayer (gp_id gp) (\<lambda>p. p\<lparr>hand := newHand\<rparr>) (gamePlayers t)).
        (userId p' = u \<and> hand p' = newHand) \<or> (p' \<in> set (gamePlayers t) \<and> userId p' \<noteq> u)"
    unfolding row using gpu same_user_same_row[OF d(1) _ gpin] by auto
  show "\<forall>p\<in>set (gamePlayers t). userId p \<noteq> u \<longrightarrow>
        p \<in> set (patchPlayer (gp_id gp) (\<lambda>p. p\<lparr>hand := newHand\<rparr>) (gamePlayers t))"
    unfolding row using gpu by (auto simp: image_iff)
qed

lemma applyPlay_rows:
  assumes "applyPlay t gs gp u cs newHand now = Done t'"
  shows "gamePlayers t' = patchPlayer (gp_id gp) (\<lambda>p. p\<lparr>hand := newHand\<rparr>) (gamePlayers t)"
  using assms unfolding applyPlay_def Let_def
  by (auto split: sum.splits if_splits)

text \<open>The two outcomes of an accepted play, with the search result \<open>r\<close>.\<close>

lemma applyPlay_ended:
  assumes "applyPlay t gs gp u cs newHand now = Done t'"
    and "getNextPlayerToPlay (gamePlayers t) u (passedUserIds gs)
          (map userId (filter (\<lambda>p. handLenAfter gp newHand p = 0) (gamePlayers t))) = Inr r"
    and "newHand = []"
    and "holders (patchPlayer (gp_id gp) (\<lambda>p. p\<lparr>hand := newHand\<rparr>) (gamePlayers t)) = 1"
  shows "gameState t' = Some (gs\<lparr>
            phase := RoundEnded,
            finishedOrder := Some
              ((case map_option userId
                      (List.find (\<lambda>p. handLenAfter gp newHand p > 0) (gamePlayers t)) of
                  Some l \<Rightarrow> (\<lambda>fo. fo @ [l]) | None \<Rightarrow> (\<lambda>fo. fo))
               (let fo0 = (case finishedOrder gs of None \<Rightarrow> [] | Some f \<Rightarrow> f)
                in if u \<notin> set fo0 then fo0 @ [u] else fo0)),
            roundLoserId := map_option userId
                      (List.find (\<lambda>p. handLenAfter gp newHand p > 0) (gamePlayers t)),
            currentTurnUserId := Some (case r of Some v \<Rightarrow> v | None \<Rightarrow> u),
            discardPile := discardPile gs @ cs,
            lastPlayedCount := 0,
            lastPlayedRank := None,
            lastPlayedBy := None,
            turnNumber := turnNumber gs + 1,
            turnStartedAt := now\<rparr>)"
  using assms unfolding applyPlay_def Let_def holders_after_play
  by (auto split: option.splits)

lemma applyPlay_continues:
  assumes "applyPlay t gs gp u cs newHand now = Done t'"
    and "getNextPlayerToPlay (gamePlayers t) u (passedUserIds gs)
          (map userId (filter (\<lambda>p. handLenAfter gp newHand p = 0) (gamePlayers t))) = Inr r"
    and "\<not> (newHand = [] \<and>
            holders (patchPlayer (gp_id gp) (\<lambda>p. p\<lparr>hand := newHand\<rparr>) (gamePlayers t)) = 1)"
  shows "gameState t' = Some (gs\<lparr>
            currentTurnUserId := Some (case r of Some v \<Rightarrow> v | None \<Rightarrow> u),
            lastPlayedCount := (if newHand = [] \<or> r = None then 0 else length cs),
            lastPlayedRank := (if newHand = [] \<or> r = None then None else playRankOf cs),
            lastPlayedBy := (if newHand = [] \<or> r = None then None else Some u),
            discardPile := (if newHand = [] \<or> r = None then [] else discardPile gs @ cs),
            turnNumber := turnNumber gs + 1,
            turnStartedAt := now,
            passedUserIds := (if r = None \<or> newHand = [] then [] else passedUserIds gs),
            finishedOrder :=
              (let fo0 = (case finishedOrder gs of None \<Rightarrow> [] | Some f \<Rightarrow> f);
                   fo = (if newHand = [] \<and> u \<notin> set fo0 then fo0 @ [u] else fo0)
               in if fo \<noteq> [] then Some fo else finishedOrder gs)\<rparr>)"
  using assms unfolding applyPlay_def Let_def holders_after_play
  by (auto split: if_splits)

lemma holders_one_find:
  assumes "holders (patchPlayer (gp_id gp) (\<lambda>p. p\<lparr>hand := newHand\<rparr>) ps) = 1"
  shows "\<exists>l. List.find (\<lambda>p. handLenAfter gp newHand p > 0) ps = Some l"
proof -
  from assms have "0 < holders (patchPlayer (gp_id gp) (\<lambda>p. p\<lparr>hand := newHand\<rparr>) ps)"
    by simp
  then obtain p' where p': "p' \<in> set (patchPlayer (gp_id gp) (\<lambda>p. p\<lparr>hand := newHand\<rparr>) ps)"
    "hand p' \<noteq> []"
    using holders_pos_ex by blast
  then obtain p where "p \<in> set ps" "handLenAfter gp newHand p > 0"
    by (auto simp: patchPlayer_def handLenAfter_def split: if_splits)
  then show ?thesis
    using find_None_set[of "\<lambda>p. handLenAfter gp newHand p > 0" ps]
    by (cases "List.find (\<lambda>p. handLenAfter gp newHand p > 0) ps") auto
qed

lemma inv_applyPlay:
  assumes inv: "inv t" and gs: "gameState t = Some gs" "phase gs = Play"
      "currentTurnUserId gs = Some u"
    and gp: "List.find (\<lambda>p. userId p = u) (gamePlayers t) = Some gp"
    and rm: "removeEach (hand gp) cs = Some newHand" "cs \<noteq> []"
    and ap: "applyPlay t gs gp u cs newHand now = Done t'"
  shows "inv t'"
proof -
  let ?ps = "gamePlayers t"
  let ?ps' = "patchPlayer (gp_id gp) (\<lambda>p. p\<lparr>hand := newHand\<rparr>) ?ps"
  note d = invD[OF inv gs(1)]
  note f = play_facts[OF inv gs gp rm]
  note ip = d(6)[OF gs(2), unfolded inv_play_def]
  have rows: "gamePlayers t' = ?ps'" by (rule applyPlay_rows[OF ap])
  have uids: "map userId ?ps' = map userId ?ps" by (simp add: patchPlayer_userId)
  have ids: "map gp_id ?ps' = map gp_id ?ps" by (simp add: patchPlayer_gp_id)
  have uset: "userId ` set ?ps' = userId ` set ?ps"
    using uids by (metis set_map)
  have useated: "u \<in> userId ` set ?ps" using f(1,2) by auto
  obtain r where r: "getNextPlayerToPlay ?ps u (passedUserIds gs)
          (map userId (filter (\<lambda>p. handLenAfter gp newHand p = 0) ?ps)) = Inr r"
    using getNext_Inr[OF useated] by blast
  have rS: "\<And>v. r = Some v \<Longrightarrow> v \<in> userId ` set ?ps \<and> v \<notin> set (passedUserIds gs)"
    using getNext_Some[OF _ useated] r by blast
  have nxt: "(case r of Some v \<Rightarrow> v | None \<Rightarrow> u) \<in> userId ` set ?ps"
    using rS useated by (cases r) auto
  let ?fo0 = "case finishedOrder gs of None \<Rightarrow> [] | Some f \<Rightarrow> f"
  have fo0c: "distinct ?fo0 \<and> set ?fo0 \<subseteq> userId ` set ?ps
    \<and> (\<forall>p\<in>set ?ps. userId p \<in> set ?fo0 \<longrightarrow> hand p = [])"
  proof (cases "finishedOrder gs")
    case None
    then show ?thesis by simp
  next
    case (Some fo)
    with ip have "distinct fo \<and> set fo \<subseteq> userId ` set ?ps
      \<and> (\<forall>p\<in>set ?ps. userId p \<in> set fo \<longrightarrow> hand p = [])" by blast
    with Some show ?thesis by simp
  qed
  then have fo0: "distinct ?fo0" "set ?fo0 \<subseteq> userId ` set ?ps"
    "\<forall>p\<in>set ?ps. userId p \<in> set ?fo0 \<longrightarrow> hand p = []"
    by blast+
  have unot: "u \<notin> set ?fo0" using fo0(3) f(1,2,3) by auto
  show ?thesis
  proof (cases "newHand = [] \<and> holders ?ps' = 1")
    case True
    then have nh: "newHand = []" and h1: "holders ?ps' = 1" by auto
    from holders_one_find[OF h1] obtain l where
      l: "List.find (\<lambda>p. handLenAfter gp newHand p > 0) ?ps = Some l" by blast
    from find_Some_set[OF l] have lin: "l \<in> set ?ps" and lpos: "handLenAfter gp newHand l > 0"
      by auto
    from lpos nh have lne: "gp_id l \<noteq> gp_id gp" "hand l \<noteq> []"
      by (auto simp: handLenAfter_def split: if_splits)
    from lne(1) have lu: "userId l \<noteq> u"
      using same_user_same_row[OF d(1) lin f(1)] f(2) by auto
    from lne(2) lin fo0(3) have lfo: "userId l \<notin> set ?fo0" by auto
    note st = applyPlay_ended[OF ap r nh h1, unfolded l Let_def]
    have fin: "finishedOrder (the (gameState t')) = Some (?fo0 @ [u, userId l])"
      using st unot by simp
    have e1: "discardPile (the (gameState t')) \<noteq> []" using st rm(2) by simp
    have e2: "\<exists>p\<in>set ?ps'. hand p \<noteq> []" using h1 holders_pos_ex[of ?ps'] by simp
    have e3: "distinct (?fo0 @ [u, userId l])" using fo0(1) unot lfo lu by auto
    have e4: "set (?fo0 @ [u, userId l]) \<subseteq> userId ` set ?ps'"
      using fo0(2) useated lin uset by auto
    have ended: "inv_ended ?ps' (the (gameState t'))"
      unfolding inv_ended_def using e1 e2 e3 e4 fin by blast
    show ?thesis
    proof (rule invI[where gs = "the (gameState t')"])
      show "gameState t' = Some (the (gameState t'))" using st by simp
      show "distinct (map userId (gamePlayers t'))" using rows uids d(1) by simp
      show "distinct (map gp_id (gamePlayers t'))" using rows ids d(2) by simp
      show "2 \<le> length (gamePlayers t')" using rows d(3) by simp
      show "\<And>c. currentTurnUserId (the (gameState t')) = Some c \<Longrightarrow> c \<in> userId ` set (gamePlayers t')"
        using st nxt rows uset by auto
      show "\<And>v. lastPlayedBy (the (gameState t')) = Some v \<Longrightarrow> v \<in> userId ` set (gamePlayers t')"
        using st by simp
      show "phase (the (gameState t')) = Play \<Longrightarrow> inv_play (gamePlayers t') (the (gameState t'))"
        using st by simp
      show "phase (the (gameState t')) = RoundEnded \<Longrightarrow> inv_ended (gamePlayers t') (the (gameState t'))"
        using ended rows by simp
      show "phase (the (gameState t')) = Exchange \<Longrightarrow> inv_exchange (gamePlayers t') (the (gameState t'))"
        using st by simp
    qed
  next
    case False
    note st = applyPlay_continues[OF ap r False]
    let ?gs' = "the (gameState t')"
    have ph: "phase ?gs' = Play" using st gs(2) by simp
    have p1: "distinct (passedUserIds ?gs')" using st ip by simp
    have p2: "\<forall>c. currentTurnUserId ?gs' = Some c \<longrightarrow> c \<notin> set (passedUserIds ?gs')"
      using st rS by (cases r) auto
    have fo': "finishedOrder ?gs' = Some fo \<Longrightarrow>
        fo = (if newHand = [] then ?fo0 @ [u] else ?fo0)" for fo
      using st unot by (auto simp: Let_def split: if_splits option.splits)
    have p3: "\<forall>fo. finishedOrder ?gs' = Some fo \<longrightarrow>
           distinct fo \<and> set fo \<subseteq> userId ` set ?ps'
           \<and> (\<forall>p\<in>set ?ps'. userId p \<in> set fo \<longrightarrow> hand p = [])"
    proof (intro allI impI)
      fix fo assume "finishedOrder ?gs' = Some fo"
      then have fo: "fo = (if newHand = [] then ?fo0 @ [u] else ?fo0)" by (rule fo')
      have a: "distinct fo" using fo fo0(1) unot by auto
      have b: "set fo \<subseteq> userId ` set ?ps'" using fo fo0(2) useated uset by auto
      have c: "\<forall>p\<in>set ?ps'. userId p \<in> set fo \<longrightarrow> hand p = []"
      proof (intro ballI impI)
        fix p assume p: "p \<in> set ?ps'" "userId p \<in> set fo"
        from f(6) p(1) consider "userId p = u" "hand p = newHand"
          | "p \<in> set ?ps" "userId p \<noteq> u" by blast
        then show "hand p = []"
        proof cases
          case 1
          with p(2) fo unot show ?thesis by (auto split: if_splits)
        next
          case 2
          with p(2) fo have "userId p \<in> set ?fo0" by (auto split: if_splits)
          with 2 fo0(3) show ?thesis by blast
        qed
      qed
      from a b c show "distinct fo \<and> set fo \<subseteq> userId ` set ?ps'
           \<and> (\<forall>p\<in>set ?ps'. userId p \<in> set fo \<longrightarrow> hand p = [])" by blast
    qed
    have p4: "2 \<le> holders ?ps'"
    proof (cases "newHand = []")
      case True
      with False have "holders ?ps' \<noteq> 1" by simp
      moreover from True f(4,5) have "1 \<le> holders ?ps'" by simp
      ultimately show ?thesis by simp
    next
      case False
      with f(4,5) show ?thesis by simp
    qed
    have play: "inv_play ?ps' ?gs'"
      unfolding inv_play_def using p1 p2 p3 p4 by blast
    show ?thesis
    proof (rule invI[where gs = ?gs'])
      show "gameState t' = Some ?gs'" using st by simp
      show "distinct (map userId (gamePlayers t'))" using rows uids d(1) by simp
      show "distinct (map gp_id (gamePlayers t'))" using rows ids d(2) by simp
      show "2 \<le> length (gamePlayers t')" using rows d(3) by simp
      show "\<And>c. currentTurnUserId ?gs' = Some c \<Longrightarrow> c \<in> userId ` set (gamePlayers t')"
        using st nxt rows uset by auto
      show "\<And>v. lastPlayedBy ?gs' = Some v \<Longrightarrow> v \<in> userId ` set (gamePlayers t')"
        using st useated rows uset by (auto split: if_splits)
      show "phase ?gs' = Play \<Longrightarrow> inv_play (gamePlayers t') ?gs'"
        using play rows by simp
      show "phase ?gs' = RoundEnded \<Longrightarrow> inv_ended (gamePlayers t') ?gs'"
        using ph by simp
      show "phase ?gs' = Exchange \<Longrightarrow> inv_exchange (gamePlayers t') ?gs'"
        using ph by simp
    qed
  qed
qed

section \<open>An accepted pass keeps the invariant\<close>

text \<open>The outcome of an accepted pass, with the search result \<open>r\<close>.\<close>

lemma applyPass_cases:
  assumes "applyPass t gs u now = Done t'"
    and "getNextPlayerToPlay (gamePlayers t) u (passedUserIds gs @ [u])
          (map userId (filter (\<lambda>p. length (hand p) = 0) (gamePlayers t))) = Inr r"
  shows "gamePlayers t' = gamePlayers t"
    and "gameState t' = Some
      (if r = None \<or> (r = lastPlayedBy gs
                        \<and> int (length (gamePlayers t)) - 1 \<le> int (length (passedUserIds gs @ [u])))
       then gs\<lparr>currentTurnUserId := lastPlayedBy gs, lastPlayedCount := 0,
               lastPlayedRank := None, lastPlayedBy := None, passedUserIds := [],
               turnNumber := turnNumber gs + 1, turnStartedAt := now\<rparr>
       else gs\<lparr>currentTurnUserId := r, passedUserIds := passedUserIds gs @ [u],
               turnNumber := turnNumber gs + 1, turnStartedAt := now\<rparr>)"
  using assms unfolding applyPass_def Let_def
  by (auto split: option.splits if_splits)

lemma inv_applyPass:
  assumes inv: "inv t" and gs: "gameState t = Some gs" "phase gs = Play"
      "currentTurnUserId gs = Some u" "lastPlayedCount gs \<noteq> 0"
    and ap: "applyPass t gs u now = Done t'"
  shows "inv t'"
proof -
  let ?ps = "gamePlayers t"
  note d = invD[OF inv gs(1)]
  note ip = d(6)[OF gs(2), unfolded inv_play_def]
  have useated: "u \<in> userId ` set ?ps" using d(4)[OF gs(3)] .
  obtain r where r: "getNextPlayerToPlay ?ps u (passedUserIds gs @ [u])
          (map userId (filter (\<lambda>p. length (hand p) = 0) ?ps)) = Inr r"
    using getNext_Inr[OF useated] by blast
  have rS: "\<And>v. r = Some v \<Longrightarrow> v \<in> userId ` set ?ps \<and> v \<notin> set (passedUserIds gs @ [u])"
    using getNext_Some[OF _ useated] r by blast
  define clear where "clear \<longleftrightarrow> r = None \<or> (r = lastPlayedBy gs
                        \<and> int (length ?ps) - 1 \<le> int (length (passedUserIds gs @ [u])))"
  note c = applyPass_cases[OF ap r, folded clear_def]
  let ?gs' = "the (gameState t')"
  have ph: "phase ?gs' = Play" using c(2) gs(2) by (simp split: if_splits)
  have unp: "u \<notin> set (passedUserIds gs)" using ip gs(3) by blast
  have h2: "2 \<le> holders ?ps" using ip gs(4) by blast
  have fo: "finishedOrder ?gs' = finishedOrder gs" using c(2) by (simp split: if_splits)
  have p1: "distinct (passedUserIds ?gs')"
    using c(2) ip unp by (auto split: if_splits)
  have p2: "\<forall>c. currentTurnUserId ?gs' = Some c \<longrightarrow> c \<notin> set (passedUserIds ?gs')"
  proof (cases clear)
    case True
    with c(2) show ?thesis by simp
  next
    case False
    with c(2) rS show ?thesis by auto
  qed
  have p3: "\<forall>fo. finishedOrder ?gs' = Some fo \<longrightarrow>
           distinct fo \<and> set fo \<subseteq> userId ` set ?ps
           \<and> (\<forall>p\<in>set ?ps. userId p \<in> set fo \<longrightarrow> hand p = [])"
    using fo ip by simp
  have play: "inv_play ?ps ?gs'"
    unfolding inv_play_def using p1 p2 p3 h2 by blast
  have cur: "\<And>c. currentTurnUserId ?gs' = Some c \<Longrightarrow> c \<in> userId ` set ?ps"
  proof -
    fix c assume a: "currentTurnUserId ?gs' = Some c"
    show "c \<in> userId ` set ?ps"
    proof (cases clear)
      case True
      with c(2) a have "lastPlayedBy gs = Some c" by simp
      then show ?thesis by (rule d(5))
    next
      case False
      with c(2) a have "r = Some c" by simp
      then show ?thesis using rS by blast
    qed
  qed
  have lb: "\<And>v. lastPlayedBy ?gs' = Some v \<Longrightarrow> v \<in> userId ` set ?ps"
    using c(2) d(5) by (auto split: if_splits)
  show ?thesis
  proof (rule invI[where gs = ?gs'])
    show "gameState t' = Some ?gs'" using c(2) by simp
    show "distinct (map userId (gamePlayers t'))" using c(1) d(1) by simp
    show "distinct (map gp_id (gamePlayers t'))" using c(1) d(2) by simp
    show "2 \<le> length (gamePlayers t')" using c(1) d(3) by simp
    show "\<And>c. currentTurnUserId ?gs' = Some c \<Longrightarrow> c \<in> userId ` set (gamePlayers t')"
      using cur c(1) by simp
    show "\<And>v. lastPlayedBy ?gs' = Some v \<Longrightarrow> v \<in> userId ` set (gamePlayers t')"
      using lb c(1) by simp
    show "phase ?gs' = Play \<Longrightarrow> inv_play (gamePlayers t') ?gs'" using play c(1) by simp
    show "phase ?gs' = RoundEnded \<Longrightarrow> inv_ended (gamePlayers t') ?gs'" using ph by simp
    show "phase ?gs' = Exchange \<Longrightarrow> inv_exchange (gamePlayers t') ?gs'" using ph by simp
  qed
qed

section \<open>Shuffling and dealing\<close>

lemma shuffle_loop_mset: "k < length out \<or> k = 0 \<Longrightarrow> mset (shuffle_loop rnd k out) = mset out"
proof (induction k arbitrary: out)
  case 0
  then show ?case by simp
next
  case (Suc k)
  then have lt: "Suc k < length out" by simp
  let ?j = "rnd (Suc k) mod (Suc k + 1)"
  have "?j < Suc k + 1" by (rule mod_less_divisor) simp
  with lt have j: "?j < length out" by linarith
  let ?out = "out[Suc k := out ! ?j, ?j := out ! Suc k]"
  have "mset ?out = mset out" using mset_swap[OF j lt] by simp
  moreover have "k < length ?out \<or> k = 0" using lt by simp
  ultimately show ?case using Suc.IH[of ?out] by (simp add: Let_def)
qed

lemma shuffleArray_mset: "mset (shuffleArray rnd xs) = mset xs"
  unfolding shuffleArray_def
  by (rule shuffle_loop_mset) (cases xs, auto)

lemma shuffleArray_length: "length (shuffleArray rnd xs) = length xs"
  using shuffleArray_mset[of rnd xs] by (metis size_mset)

lemma distribute_loop_length: "length (distribute_loop deck b r ps idx) = length ps"
  by (induction ps arbitrary: idx) (auto simp: Let_def)

lemma distribute_loop_concat:
  "concat (distribute_loop deck b r ps idx)
     = take (sum_list (map (\<lambda>p. b + (if p < r then 1 else 0)) ps)) (drop idx deck)"
proof (induction ps arbitrary: idx)
  case Nil
  then show ?case by simp
next
  case (Cons p ps)
  let ?c = "b + (if p < r then 1 else 0)"
  have "drop (idx + ?c) deck = drop ?c (drop idx deck)" by (simp add: add.commute)
  then show ?case using Cons.IH[of "idx + ?c"]
    by (simp add: Let_def take_add del: drop_drop)
qed

lemma counts_sum: "sum_list (map (\<lambda>p. b + (if p < r then 1 else (0::nat))) [0..<n]) = b * n + min r n"
  by (induction n) auto

lemma distributeEvenly_length: "length (distributeEvenly deck n) = n"
  by (simp add: distributeEvenly_def distribute_loop_length)

lemma distributeEvenly_concat:
  assumes "0 < n"
  shows "concat (distributeEvenly deck n) = deck"
proof -
  have "length deck mod n < n" using assms by simp
  then have "(length deck div n) * n + min (length deck mod n) n = length deck" by simp
  then show ?thesis
    by (simp add: distributeEvenly_def distribute_loop_concat counts_sum)
qed

text \<open>With at least two cards and two seats, the first two seats get a card each.\<close>

lemma distributeEvenly_first_two:
  assumes "2 \<le> length deck" "2 \<le> n"
  shows "distributeEvenly deck n ! 0 \<noteq> [] \<and> distributeEvenly deck n ! 1 \<noteq> []"
proof -
  let ?b = "length deck div n" and ?r = "length deck mod n"
  from assms(2) have "[0..<n] = 0 # [Suc 0..<n]" by (simp add: upt_conv_Cons)
  moreover from assms(2) have "[Suc 0..<n] = Suc 0 # [Suc (Suc 0)..<n]"
    by (simp add: upt_conv_Cons)
  ultimately have upt: "[0..<n] = 0 # 1 # [2..<n]" by (simp add: numeral_2_eq_2)
  have c: "1 \<le> ?b \<or> 2 \<le> ?r"
  proof (cases "n \<le> length deck")
    case True
    then have "1 \<le> ?b" using assms(2) by (simp add: div_greater_zero_iff Suc_le_eq)
    then show ?thesis by simp
  next
    case False
    then have "?r = length deck" by simp
    with assms(1) show ?thesis by simp
  qed
  let ?c0 = "?b + (if 0 < ?r then 1 else 0)" and ?c1 = "?b + (if 1 < ?r then 1 else 0)"
  have c0: "1 \<le> ?c0" and c1: "1 \<le> ?c1" using c by auto
  have le: "?c0 + ?c1 \<le> length deck"
  proof -
    have "?b * n + ?r = length deck" by simp
    moreover have "2 * ?b \<le> ?b * n" using assms(2) by simp
    moreover have "(if 0 < ?r then 1 else 0) + (if 1 < ?r then 1 else 0) \<le> ?r" by auto
    ultimately show ?thesis by linarith
  qed
  have h0: "distributeEvenly deck n ! 0 = take ?c0 deck"
    by (simp add: distributeEvenly_def upt Let_def)
  have h1: "distributeEvenly deck n ! 1 = take ?c1 (drop ?c0 deck)"
    by (simp add: distributeEvenly_def upt Let_def)
  from c0 assms(1) have "take ?c0 deck \<noteq> []" by (cases deck) auto
  moreover from c1 le c0 have "take ?c1 (drop ?c0 deck) \<noteq> []"
    by auto
  ultimately show ?thesis using h0 h1 by simp
qed

section \<open>The reseating loop of a restart\<close>

lemma playerIdx_nth:
  assumes "distinct (map userId xs)" "i < length xs"
  shows "playerIdxByUserId xs (userId (xs ! i)) = Some i"
proof -
  let ?ks = "map userId xs" and ?n = "length xs"
  have len: "length (rev ?ks) = length (rev [0..<?n])" by simp
  have d: "distinct (rev ?ks)" using assms(1) by simp
  have j: "?n - Suc i < length (rev [0..<?n])" using assms(2) by simp
  have "rev (zip ?ks [0..<?n]) = zip (rev ?ks) (rev [0..<?n])"
    by (simp add: zip_rev)
  moreover have "rev ?ks ! (?n - Suc i) = userId (xs ! i)"
    using assms(2) by (simp add: rev_nth)
  moreover have "rev [0..<?n] ! (?n - Suc i) = i"
    using assms(2) by (simp add: rev_nth)
  ultimately show ?thesis
    unfolding playerIdxByUserId_def using map_of_zip_nth[OF len d j] by simp
qed

text \<open>
  A loop of patches, each setting seat and hand of one row, when the rows \<open>r i\<close>
  patched at the indices \<open>i\<close> are pairwise different: every patched row ends with
  the seat and hand of its own index, every other row is unchanged.
\<close>

lemma fold_patch_closed:
  fixes r :: "nat \<Rightarrow> game_player" and h :: "nat \<Rightarrow> card list" and ix :: "game_player \<Rightarrow> nat"
  assumes did: "distinct (map gp_id ps)"
    and dis: "distinct js"
    and rin: "\<forall>i\<in>set js. r i \<in> set ps"
    and ixr: "\<forall>i\<in>set js. ix (r i) = i"
  shows "fold (\<lambda>i rows. patchPlayer (gp_id (r i)) (\<lambda>p. p\<lparr>seatIndex := i, hand := h i\<rparr>) rows) js ps
       = map (\<lambda>p. if ix p \<in> set js \<and> r (ix p) = p
                   then p\<lparr>seatIndex := ix p, hand := h (ix p)\<rparr> else p) ps"
  using dis rin ixr
proof (induction js rule: rev_induct)
  case Nil
  then show ?case by simp
next
  case (snoc x xs)
  let ?F = "\<lambda>ys p. if ix p \<in> set ys \<and> r (ix p) = p
                   then p\<lparr>seatIndex := ix p, hand := h (ix p)\<rparr> else p"
  from snoc.prems have xs: "distinct xs" "\<forall>i\<in>set xs. r i \<in> set ps" "\<forall>i\<in>set xs. ix (r i) = i"
    and x: "x \<notin> set xs" "r x \<in> set ps" "ix (r x) = x"
    by auto
  have IH: "fold (\<lambda>i rows. patchPlayer (gp_id (r i)) (\<lambda>p. p\<lparr>seatIndex := i, hand := h i\<rparr>) rows) xs ps
       = map (?F xs) ps"
    using snoc.IH[OF xs] .
  have "patchPlayer (gp_id (r x)) (\<lambda>p. p\<lparr>seatIndex := x, hand := h x\<rparr>) (map (?F xs) ps)
      = map (?F (xs @ [x])) ps"
    unfolding patchPlayer_def map_map
  proof (rule map_cong[OF refl])
    fix p assume p: "p \<in> set ps"
    have idF: "gp_id (?F xs p) = gp_id p" by simp
    show "((\<lambda>p. if gp_id p = gp_id (r x) then p\<lparr>seatIndex := x, hand := h x\<rparr> else p) \<circ> ?F xs) p
          = ?F (xs @ [x]) p"
    proof (cases "p = r x")
      case True
      then have "?F xs p = p" using x(1,3) by simp
      with True x(3) show ?thesis by simp
    next
      case False
      then have ne: "gp_id p \<noteq> gp_id (r x)"
        using same_id_same_row[OF did p x(2)] by blast
      have "\<not> (ix p = x \<and> r (ix p) = p)" using False by auto
      then have "?F (xs @ [x]) p = ?F xs p" by auto
      with ne idF show ?thesis by simp
    qed
  qed
  with IH show ?case by simp
qed

lemma reseatStep_ids:
  "map userId (reseatStep fo n snapshot seated hands nh i rows) = map userId rows"
  "map gp_id (reseatStep fo n snapshot seated hands nh i rows) = map gp_id rows"
  unfolding reseatStep_def Let_def
  by (auto split: option.splits simp: patchPlayer_userId patchPlayer_gp_id)

lemma reseat_fold_ids:
  "map userId (fold (reseatStep fo n snapshot seated hands nh) js rows) = map userId rows"
  "map gp_id (fold (reseatStep fo n snapshot seated hands nh) js rows) = map gp_id rows"
  by (induction js arbitrary: rows) (simp_all add: reseatStep_ids)

lemma perm_distinct_map:
  assumes "mset xs = mset ys" "distinct (map f ys)"
  shows "distinct (map f xs)"
proof -
  from assms(1) have "mset (map f xs) = mset (map f ys)" by simp
  then show ?thesis using assms(2) by (metis mset_eq_imp_distinct_iff)
qed

text \<open>
  After the loop every row holds the slice of the deal at its position in seat order,
  whichever of the two seatings was used.
\<close>

lemma restart_rows:
  assumes du: "distinct (map userId ps)" and did: "distinct (map gp_id ps)"
    and snap: "mset snapshot = mset ps"
    and n: "n = length ps"
    and fo: "length fo = n \<Longrightarrow> distinct fo \<and> set fo = userId ` set ps"
    and so: "seated = sort_key seatIndex snapshot"
    and nh: "nh = (if length fo = n then
                     map (\<lambda>uid. case playerIdxByUserId seated uid of
                                  None \<Rightarrow> [] | Some k \<Rightarrow> hands ! k) fo
                   else hands)"
  shows "map hand (fold (reseatStep fo n snapshot seated hands nh) [0..<n] ps)
         = map (\<lambda>p. hands ! the (playerIdxByUserId seated (userId p))) ps"
proof -
  let ?pos = "\<lambda>p. the (playerIdxByUserId seated (userId p))"
  have sset: "set snapshot = set ps" using snap by (metis set_mset_mset)
  have dsnap: "distinct (map userId snapshot)" by (rule perm_distinct_map[OF snap du])
  have msorted: "mset seated = mset ps" using so snap by simp
  have setsorted: "set seated = set ps" using msorted by (metis set_mset_mset)
  have lsorted: "length seated = n" using msorted n by (metis size_mset)
  have dsorted: "distinct (map userId seated)" by (rule perm_distinct_map[OF msorted du])
  have pos_nth: "\<And>i. i < n \<Longrightarrow> ?pos (seated ! i) = i"
    using playerIdx_nth[OF dsorted] lsorted by simp
  have pos_ex: "\<And>p. p \<in> set ps \<Longrightarrow> \<exists>k<n. seated ! k = p"
    using in_set_conv_nth[of _ seated] setsorted lsorted by auto
  have findp: "\<And>p. p \<in> set ps \<Longrightarrow> List.find (\<lambda>q. userId q = userId p) snapshot = Some p"
    using find_userId_unique[OF dsnap] sset by simp
  show ?thesis
  proof (cases "length fo = n")
    case False
    let ?r = "\<lambda>i. seated ! i" and ?h = "\<lambda>i. hands ! i"
    have step: "\<And>i rows. i < n \<Longrightarrow>
        reseatStep fo n snapshot seated hands nh i rows
        = patchPlayer (gp_id (?r i)) (\<lambda>p. p\<lparr>seatIndex := i, hand := ?h i\<rparr>) rows"
    proof -
      fix i rows assume i: "i < n"
      then have "seated ! i \<in> set seated" using lsorted by simp
      then have "seated ! i \<in> set ps" using setsorted by simp
      from findp[OF this] show "reseatStep fo n snapshot seated hands nh i rows
        = patchPlayer (gp_id (?r i)) (\<lambda>p. p\<lparr>seatIndex := i, hand := ?h i\<rparr>) rows"
        using False by (simp add: reseatStep_def Let_def)
    qed
    have rin: "\<forall>i\<in>set [0..<n]. ?r i \<in> set ps"
    proof
      fix i assume "i \<in> set [0..<n]"
      then have "seated ! i \<in> set seated" using lsorted by simp
      then show "seated ! i \<in> set ps" using setsorted by simp
    qed
    have ixr: "\<forall>i\<in>set [0..<n]. ?pos (?r i) = i" using pos_nth by simp
    have "fold (reseatStep fo n snapshot seated hands nh) [0..<n] ps
        = fold (\<lambda>i rows. patchPlayer (gp_id (?r i)) (\<lambda>p. p\<lparr>seatIndex := i, hand := ?h i\<rparr>) rows)
            [0..<n] ps"
      by (rule fold_cong[OF refl refl]) (rule ext, simp add: step)
    also have "\<dots> = map (\<lambda>p. if ?pos p \<in> set [0..<n] \<and> ?r (?pos p) = p
                   then p\<lparr>seatIndex := ?pos p, hand := ?h (?pos p)\<rparr> else p) ps"
      by (rule fold_patch_closed[OF did _ rin ixr]) simp
    finally have "map hand (fold (reseatStep fo n snapshot seated hands nh) [0..<n] ps)
        = map (\<lambda>p. hand (if ?pos p \<in> set [0..<n] \<and> ?r (?pos p) = p
                   then p\<lparr>seatIndex := ?pos p, hand := ?h (?pos p)\<rparr> else p)) ps"
      by (simp add: comp_def)
    also have "\<dots> = map (\<lambda>p. hands ! ?pos p) ps"
    proof (rule map_cong[OF refl])
      fix p assume "p \<in> set ps"
      from pos_ex[OF this] obtain k where k: "k < n" "seated ! k = p" by blast
      with pos_nth[OF k(1)] have "?pos p = k" by simp
      with k show "hand (if ?pos p \<in> set [0..<n] \<and> ?r (?pos p) = p
                   then p\<lparr>seatIndex := ?pos p, hand := ?h (?pos p)\<rparr> else p) = hands ! ?pos p"
        by simp
    qed
    finally show ?thesis .
  next
    case True
    from fo[OF True] have dfo: "distinct fo" and sfo: "set fo = userId ` set ps" by auto
    let ?r = "\<lambda>i. the (List.find (\<lambda>p. userId p = fo ! i) snapshot)"
    let ?h = "\<lambda>i. nh ! i"
    let ?ix = "\<lambda>p. the (map_of (zip fo [0..<n]) (userId p))"
    have ri: "\<And>i. i < n \<Longrightarrow> \<exists>p\<in>set ps. userId p = fo ! i
                \<and> List.find (\<lambda>q. userId q = fo ! i) snapshot = Some p"
    proof -
      fix i assume "i < n"
      then have "fo ! i \<in> set fo" using True by simp
      then obtain p where p: "p \<in> set ps" "userId p = fo ! i" using sfo by auto
      with findp[OF p(1)] show "\<exists>p\<in>set ps. userId p = fo ! i
                \<and> List.find (\<lambda>q. userId q = fo ! i) snapshot = Some p" by auto
    qed
    have ixfo: "\<And>i. i < n \<Longrightarrow> map_of (zip fo [0..<n]) (fo ! i) = Some i"
    proof -
      fix i assume i: "i < n"
      have "map_of (zip fo [0..<n]) (fo ! i) = Some ([0..<n] ! i)"
        by (rule map_of_zip_nth) (use True dfo i in auto)
      with i show "map_of (zip fo [0..<n]) (fo ! i) = Some i" by simp
    qed
    have hnh: "\<And>i. i < n \<Longrightarrow> nh ! i = hands ! ?pos (?r i)"
    proof -
      fix i assume i: "i < n"
      from ri[OF i] obtain p where p: "p \<in> set ps" "userId p = fo ! i"
        "List.find (\<lambda>q. userId q = fo ! i) snapshot = Some p" by blast
      from pos_ex[OF p(1)] obtain k where k: "k < n" "seated ! k = p" by blast
      have "playerIdxByUserId seated (userId p) = Some k"
        using playerIdx_nth[OF dsorted, of k] k lsorted by simp
      then show "nh ! i = hands ! ?pos (?r i)"
        using nh True i p by simp
    qed
    have step: "\<And>i rows. i < n \<Longrightarrow>
        reseatStep fo n snapshot seated hands nh i rows
        = patchPlayer (gp_id (?r i)) (\<lambda>p. p\<lparr>seatIndex := i, hand := ?h i\<rparr>) rows"
    proof -
      fix i rows assume i: "i < n"
      from ri[OF i] show "reseatStep fo n snapshot seated hands nh i rows
        = patchPlayer (gp_id (?r i)) (\<lambda>p. p\<lparr>seatIndex := i, hand := ?h i\<rparr>) rows"
        using True by (auto simp: reseatStep_def Let_def)
    qed
    have rin: "\<forall>i\<in>set [0..<n]. ?r i \<in> set ps"
    proof
      fix i assume "i \<in> set [0..<n]"
      then have i: "i < n" by simp
      from ri[OF i] show "?r i \<in> set ps" by auto
    qed
    have ixr: "\<forall>i\<in>set [0..<n]. ?ix (?r i) = i"
    proof
      fix i assume "i \<in> set [0..<n]"
      then have i: "i < n" by simp
      from ri[OF i] ixfo[OF i] show "?ix (?r i) = i" by auto
    qed
    have "fold (reseatStep fo n snapshot seated hands nh) [0..<n] ps
        = fold (\<lambda>i rows. patchPlayer (gp_id (?r i)) (\<lambda>p. p\<lparr>seatIndex := i, hand := ?h i\<rparr>) rows)
            [0..<n] ps"
      by (rule fold_cong[OF refl refl]) (rule ext, simp add: step)
    also have "\<dots> = map (\<lambda>p. if ?ix p \<in> set [0..<n] \<and> ?r (?ix p) = p
                   then p\<lparr>seatIndex := ?ix p, hand := ?h (?ix p)\<rparr> else p) ps"
      by (rule fold_patch_closed[OF did _ rin ixr]) simp
    finally have "map hand (fold (reseatStep fo n snapshot seated hands nh) [0..<n] ps)
        = map (\<lambda>p. hand (if ?ix p \<in> set [0..<n] \<and> ?r (?ix p) = p
                   then p\<lparr>seatIndex := ?ix p, hand := ?h (?ix p)\<rparr> else p)) ps"
      by (simp add: comp_def)
    also have "\<dots> = map (\<lambda>p. hands ! ?pos p) ps"
    proof (rule map_cong[OF refl])
      fix p assume p: "p \<in> set ps"
      then have "userId p \<in> set fo" using sfo by simp
      then obtain i where i: "i < n" "fo ! i = userId p"
        using True in_set_conv_nth[of "userId p" fo] by auto
      have rp: "?r i = p" using findp[OF p] i(2) by simp
      have ixp: "?ix p = i" using ixfo[OF i(1)] i(2) by simp
      from hnh[OF i(1)] rp have "?h i = hands ! ?pos p" by simp
      with rp ixp i(1) show "hand (if ?ix p \<in> set [0..<n] \<and> ?r (?ix p) = p
                   then p\<lparr>seatIndex := ?ix p, hand := ?h (?ix p)\<rparr> else p) = hands ! ?pos p"
        by simp
    qed
    finally show ?thesis .
  qed
qed

section \<open>The cards after a restart\<close>

lemma mset_concat_perm:
  assumes "mset xss = mset yss"
  shows "mset (concat xss) = mset (concat yss)"
proof -
  have "mset (concat xss) = sum_mset (image_mset mset (mset xss))"
    by (simp add: mset_concat flip: sum_mset_sum_list)
  also have "\<dots> = sum_mset (image_mset mset (mset yss))" using assms by simp
  also have "\<dots> = mset (concat yss)"
    by (simp add: mset_concat flip: sum_mset_sum_list)
  finally show ?thesis .
qed

lemma handCards_perm: "mset xs = mset ys \<Longrightarrow> handCards xs = handCards ys"
  unfolding handCards_def by (rule mset_concat_perm) simp

lemma two_in_filter:
  assumes "x \<in> set xs" "y \<in> set xs" "x \<noteq> y" "P x" "P y"
  shows "2 \<le> length (filter P xs)"
proof -
  have "{x, y} \<subseteq> set (filter P xs)" using assms by simp
  then have "card {x, y} \<le> card (set (filter P xs))" by (intro card_mono) simp_all
  also have "\<dots> \<le> length (filter P xs)" by (rule card_length)
  finally show ?thesis using assms(3) by simp
qed

lemma holders_map_hand: "holders rows = length (filter (\<lambda>h. h \<noteq> []) (map hand rows))"
  by (simp add: holders_def filter_map comp_def)

lemma handCards_map_hand: "handCards rows = mset (concat (map hand rows))"
  by (simp add: handCards_def)

lemma applyRestart_rows:
  assumes "applyRestart t gs rnd now = Done t'"
  shows "gamePlayers t' =
     (let fo = (case finishedOrder gs of None \<Rightarrow> [] | Some f \<Rightarrow> f);
          n = length (gamePlayers t);
          snapshot = (if fo = [] then sort_key seatIndex (gamePlayers t) else gamePlayers t);
          hands = distributeEvenly
                    (shuffleArray rnd (concat (map hand snapshot) @ discardPile gs)) n;
          seated = sort_key seatIndex snapshot;
          nh = (if length fo = n then
                  map (\<lambda>uid. case playerIdxByUserId seated uid of
                               None \<Rightarrow> [] | Some k \<Rightarrow> hands ! k) fo
                else hands)
      in fold (reseatStep fo n snapshot seated hands nh) [0..<n] (gamePlayers t))"
  using assms unfolding applyRestart_def Let_def
  by (auto split: if_splits)

text \<open>
  When the row and user ids are distinct and a finish order as long as the table lists
  exactly the seated users, a restart deals out again exactly the cards of the hands
  and the discard pile, and with two seats and two cards at least two seats hold cards.
\<close>

lemma restart_deal:
  assumes ap: "applyRestart t gs rnd now = Done t'"
    and du: "distinct (map userId (gamePlayers t))"
    and did: "distinct (map gp_id (gamePlayers t))"
    and n1: "1 \<le> length (gamePlayers t)"
    and fo: "\<forall>fo. finishedOrder gs = Some fo \<longrightarrow> length fo = length (gamePlayers t)
               \<longrightarrow> distinct fo \<and> set fo = userId ` set (gamePlayers t)"
  shows "handCards (gamePlayers t') = handCards (gamePlayers t) + mset (discardPile gs)"
    and "map userId (gamePlayers t') = map userId (gamePlayers t)"
    and "map gp_id (gamePlayers t') = map gp_id (gamePlayers t)"
    and "2 \<le> length (gamePlayers t) \<Longrightarrow>
         2 \<le> size (handCards (gamePlayers t) + mset (discardPile gs)) \<Longrightarrow>
         2 \<le> holders (gamePlayers t')"
proof -
  let ?ps = "gamePlayers t"
  define fo0 where "fo0 = (case finishedOrder gs of None \<Rightarrow> [] | Some f \<Rightarrow> f)"
  define n where "n = length ?ps"
  define snapshot where "snapshot = (if fo0 = [] then sort_key seatIndex ?ps else ?ps)"
  define deck where "deck = shuffleArray rnd (concat (map hand snapshot) @ discardPile gs)"
  define hands where "hands = distributeEvenly deck n"
  define seated where "seated = sort_key seatIndex snapshot"
  define nh where "nh = (if length fo0 = n then
                  map (\<lambda>uid. case playerIdxByUserId seated uid of
                               None \<Rightarrow> [] | Some k \<Rightarrow> hands ! k) fo0
                else hands)"
  let ?pos = "\<lambda>p. the (playerIdxByUserId seated (userId p))"
  have rows: "gamePlayers t' = fold (reseatStep fo0 n snapshot seated hands nh) [0..<n] ?ps"
    using applyRestart_rows[OF ap]
    unfolding Let_def fo0_def n_def snapshot_def deck_def hands_def seated_def nh_def .
  show "map userId (gamePlayers t') = map userId ?ps" unfolding rows by (rule reseat_fold_ids)
  show "map gp_id (gamePlayers t') = map gp_id ?ps" unfolding rows by (rule reseat_fold_ids)
  have snap: "mset snapshot = mset ?ps" by (simp add: snapshot_def)
  have fo': "length fo0 = n \<Longrightarrow> distinct fo0 \<and> set fo0 = userId ` set ?ps"
  proof (cases "finishedOrder gs")
    case None
    assume "length fo0 = n"
    with None n1 show ?thesis by (simp add: fo0_def n_def)
  next
    case (Some f)
    assume "length fo0 = n"
    with Some fo show ?thesis by (simp add: fo0_def n_def)
  qed
  have hd: "map hand (gamePlayers t') = map (\<lambda>p. hands ! ?pos p) ?ps"
    unfolding rows
    by (rule restart_rows[OF du did snap n_def fo' seated_def nh_def])
  have mseated: "mset seated = mset ?ps" using snap by (simp add: seated_def)
  have lseated: "length seated = n" using mseated n_def by (metis size_mset)
  have dseated: "distinct (map userId seated)" by (rule perm_distinct_map[OF mseated du])
  have lhands: "length hands = n" by (simp add: hands_def distributeEvenly_length)
  have pos_nth: "\<And>i. i < n \<Longrightarrow> ?pos (seated ! i) = i"
    using playerIdx_nth[OF dseated] lseated by simp
  have "map (\<lambda>p. hands ! ?pos p) seated = map (\<lambda>i. hands ! ?pos (seated ! i)) [0..<n]"
    using lseated by (simp add: map_equality_iff)
  also have "\<dots> = map (\<lambda>i. hands ! i) [0..<n]" using pos_nth by simp
  also have "\<dots> = hands" using lhands map_nth[of hands] by simp
  finally have hs: "map (\<lambda>p. hands ! ?pos p) seated = hands" .
  have "mset (map (\<lambda>p. hands ! ?pos p) ?ps) = mset (map (\<lambda>p. hands ! ?pos p) seated)"
    using mseated by (metis mset_map)
  with hs have perm: "mset (map hand (gamePlayers t')) = mset hands" using hd by simp
  have "0 < n" using n1 n_def by linarith
  then have "concat hands = deck" unfolding hands_def by (rule distributeEvenly_concat)
  then have "mset (concat hands) = mset (concat (map hand snapshot)) + mset (discardPile gs)"
    by (simp add: deck_def shuffleArray_mset)
  also have "mset (concat (map hand snapshot)) = handCards ?ps"
    using handCards_perm[OF snap] by (simp add: handCards_def)
  finally have total: "mset (concat hands) = handCards ?ps + mset (discardPile gs)" .
  show "handCards (gamePlayers t') = handCards ?ps + mset (discardPile gs)"
    using mset_concat_perm[OF perm] total by (simp add: handCards_map_hand)
  show "2 \<le> holders (gamePlayers t')"
    if n2: "2 \<le> length ?ps" and c2: "2 \<le> size (handCards ?ps + mset (discardPile gs))"
  proof -
    have "size (mset deck) = size (handCards ?ps + mset (discardPile gs))"
      using total \<open>concat hands = deck\<close> by simp
    with c2 have "2 \<le> length deck" by simp
    from distributeEvenly_first_two[OF this, of n] n2
    have h01: "hands ! 0 \<noteq> []" "hands ! 1 \<noteq> []" by (simp_all add: hands_def n_def)
    have i0: "0 < n" and i1: "1 < n" using n2 n_def by linarith+
    have in0: "seated ! 0 \<in> set ?ps" and in1: "seated ! 1 \<in> set ?ps"
      using i0 i1 lseated mseated by (metis nth_mem set_mset_mset)+
    have ne: "seated ! 0 \<noteq> seated ! 1"
      using pos_nth[OF i0] pos_nth[OF i1] by auto
    have "2 \<le> length (filter (\<lambda>p. hands ! ?pos p \<noteq> []) ?ps)"
      by (rule two_in_filter[OF in0 in1 ne]) (use pos_nth[OF i0] pos_nth[OF i1] h01 in simp_all)
    then show ?thesis
      by (simp add: holders_map_hand hd filter_map comp_def)
  qed
qed

section \<open>An accepted restart keeps the invariant\<close>

lemma handCards_size_ge:
  "p \<in> set ps \<Longrightarrow> length (hand p) \<le> size (handCards ps)"
  by (induction ps) (auto simp: handCards_def)

lemma last_exchange_pair:
  assumes "n \<le> length fo" "2 \<le> n"
  shows "toUserId (last (buildExchangePairs fo n)) = (if n \<le> 3 then fo ! (n - 1) else fo ! 1)"
    and "count_of (last (buildExchangePairs fo n)) = 1"
  using assms unfolding buildExchangePairs_def Let_def by auto

lemma finish_order_complete:
  assumes "distinct fo" "set fo \<subseteq> userId ` set ps" "distinct (map userId ps)"
  shows "length fo \<le> length ps"
    and "length fo = length ps \<Longrightarrow> set fo = userId ` set ps"
proof -
  have c1: "card (set fo) = length fo" using assms(1) by (rule distinct_card)
  have c2: "card (userId ` set ps) = length ps"
    using assms(3) by (metis distinct_card length_map set_map)
  have "card (set fo) \<le> card (userId ` set ps)"
    using assms(2) by (intro card_mono) simp_all
  with c1 c2 show "length fo \<le> length ps" by simp
  show "set fo = userId ` set ps" if "length fo = length ps"
    using assms(2) c1 c2 that by (intro card_subset_eq) simp_all
qed

lemma inv_applyRestart:
  assumes inv: "inv t" and gs: "gameState t = Some gs" "phase gs = RoundEnded"
    and ap: "applyRestart t gs rnd now = Done t'"
  shows "inv t'"
proof -
  let ?ps = "gamePlayers t" and ?n = "length (gamePlayers t)"
  note d = invD[OF inv gs(1)]
  from d(7)[OF gs(2), unfolded inv_ended_def] obtain fo ph where
    dne: "discardPile gs \<noteq> []" and ph: "ph \<in> set ?ps" "hand ph \<noteq> []"
    and fo: "finishedOrder gs = Some fo" "distinct fo" "set fo \<subseteq> userId ` set ?ps"
    by blast
  note fc = finish_order_complete[OF fo(2,3) d(1)]
  have n1: "1 \<le> ?n" using d(3) by linarith
  have focond: "\<forall>f. finishedOrder gs = Some f \<longrightarrow> length f = ?n
               \<longrightarrow> distinct f \<and> set f = userId ` set ?ps"
    using fo(1,2) fc(2) by auto
  note deal = restart_deal[OF ap d(1) d(2) n1 focond]
  have uset: "userId ` set (gamePlayers t') = userId ` set ?ps"
    using deal(2) by (metis set_map)
  have len: "length (gamePlayers t') = ?n" using deal(2) by (metis length_map)
  have total: "2 \<le> size (handCards ?ps + mset (discardPile gs))"
  proof -
    from ph have "1 \<le> length (hand ph)" by (cases "hand ph") auto
    with handCards_size_ge[OF ph(1)] have "1 \<le> size (handCards ?ps)" by linarith
    moreover from dne have "1 \<le> length (discardPile gs)" by (cases "discardPile gs") auto
    ultimately show ?thesis by simp
  qed
  have h2: "2 \<le> holders (gamePlayers t')" by (rule deal(4)[OF d(3) total])
  define pairs where "pairs = buildExchangePairs fo ?n"
  define leader where
    "leader = (if fo \<noteq> [] then fo ! 0 else userId (sort_key seatIndex ?ps ! 0))"
  from applyRestart_state[OF ap] fo(1) obtain gs' where gs': "gameState t' = Some gs'"
    and st: "phase gs' = (if pairs \<noteq> [] then Exchange else Play)"
      "exchangePairs gs' = (if pairs \<noteq> [] then Some pairs else None)"
      "roundLeaderId gs' = (if pairs \<noteq> [] then Some leader else None)"
      "currentTurnUserId gs' = Some leader"
      "lastPlayedCount gs' = 0" "lastPlayedBy gs' = None" "passedUserIds gs' = []"
      "finishedOrder gs' = None"
    unfolding Let_def pairs_def leader_def by auto
  have lead: "leader \<in> userId ` set ?ps"
  proof (cases "fo = []")
    case True
    have "sort_key seatIndex ?ps ! 0 \<in> set ?ps"
      by (rule sorted_nth_mem) (use n1 in linarith)
    with True show ?thesis by (simp add: leader_def)
  next
    case False
    then have "fo ! 0 \<in> set fo" by simp
    with False fo(3) show ?thesis by (auto simp: leader_def)
  qed
  have play: "inv_play (gamePlayers t') gs'"
    unfolding inv_play_def using st h2 by simp
  have exch: "inv_exchange (gamePlayers t') gs'" if ne: "pairs \<noteq> []"
  proof -
    from ne have nn: "?n \<le> length fo" "2 \<le> ?n"
      by (simp_all add: pairs_def buildExchangePairs_nonempty)
    with fc(1) have lfo: "length fo = ?n" by simp
    then have fne: "fo \<noteq> []" using nn(2) by auto
    then have ld: "leader = fo ! 0" by (simp add: leader_def)
    note lp = last_exchange_pair[OF nn, folded pairs_def]
    let ?k = "if ?n \<le> 3 then ?n - 1 else 1"
    have k: "?k < length fo" "?k \<noteq> 0" using lfo nn(2) by auto
    have to: "toUserId (last pairs) = fo ! ?k" using lp(1) by (simp split: if_splits)
    have "fo ! ?k \<in> set fo" using k(1) by (rule nth_mem)
    then have a: "toUserId (last pairs) \<in> userId ` set ?ps" using to fo(3) by auto
    have "fo ! ?k \<noteq> fo ! 0"
      using fo(2) k fne by (simp add: nth_eq_iff_index_eq)
    then have b: "toUserId (last pairs) \<noteq> leader" using to ld by simp
    show ?thesis
      unfolding inv_exchange_def using st ne a b lp(2) lead uset by auto
  qed
  show ?thesis
  proof (rule invI[where gs = gs'])
    show "gameState t' = Some gs'" by (rule gs')
    show "distinct (map userId (gamePlayers t'))" using deal(2) d(1) by simp
    show "distinct (map gp_id (gamePlayers t'))" using deal(3) d(2) by simp
    show "2 \<le> length (gamePlayers t')" using len d(3) by simp
    show "\<And>c. currentTurnUserId gs' = Some c \<Longrightarrow> c \<in> userId ` set (gamePlayers t')"
      using st(4) lead uset by simp
    show "\<And>v. lastPlayedBy gs' = Some v \<Longrightarrow> v \<in> userId ` set (gamePlayers t')"
      using st(6) by simp
    show "phase gs' = Play \<Longrightarrow> inv_play (gamePlayers t') gs'" using play by simp
    show "phase gs' = RoundEnded \<Longrightarrow> inv_ended (gamePlayers t') gs'"
      using st(1) by (simp split: if_splits)
    show "phase gs' = Exchange \<Longrightarrow> inv_exchange (gamePlayers t') gs'"
      using st(1) exch by (simp split: if_splits)
  qed
qed

section \<open>An accepted exchange submission keeps the invariant\<close>

lemma find_gp_id_unique:
  assumes "distinct (map gp_id ps)" "p \<in> set ps"
  shows "List.find (\<lambda>q. gp_id q = gp_id p) ps = Some p"
  using assms by (induction ps) (auto simp: image_iff)

lemma fold_write:
  assumes "distinct (map gp_id qs)"
  shows "fold (\<lambda>gp rows. patchPlayer (gp_id gp) (\<lambda>p. p\<lparr>hand := g gp\<rparr>) rows) qs rows
       = map (\<lambda>r. case List.find (\<lambda>q. gp_id q = gp_id r) qs of
                     None \<Rightarrow> r | Some q \<Rightarrow> r\<lparr>hand := g q\<rparr>) rows"
  using assms
proof (induction qs arbitrary: rows)
  case Nil
  then show ?case by simp
next
  case (Cons q qs)
  then have d: "distinct (map gp_id qs)" and nq: "\<forall>x\<in>set qs. gp_id x \<noteq> gp_id q"
    by (auto simp: image_iff)
  have none: "List.find (\<lambda>x. gp_id x = gp_id q) qs = None"
    using nq by (simp add: find_None_set)
  let ?F = "\<lambda>gp rows. patchPlayer (gp_id gp) (\<lambda>p. p\<lparr>hand := g gp\<rparr>) rows"
  let ?G = "\<lambda>qs r. case List.find (\<lambda>q. gp_id q = gp_id r) qs of
                     None \<Rightarrow> r | Some q \<Rightarrow> r\<lparr>hand := g q\<rparr>"
  have "fold ?F (q # qs) rows = fold ?F qs (patchPlayer (gp_id q) (\<lambda>p. p\<lparr>hand := g q\<rparr>) rows)"
    by simp
  also have "\<dots> = map (?G qs) (patchPlayer (gp_id q) (\<lambda>p. p\<lparr>hand := g q\<rparr>) rows)"
    by (rule Cons.IH[OF d])
  also have "\<dots> = map (?G (q # qs)) rows"
    unfolding patchPlayer_def map_map
    by (rule map_cong[OF refl]) (auto simp: none)
  finally show ?case .
qed

text \<open>With distinct row ids, every row is written with its own entry of the map.\<close>

lemma writeHands_rows:
  assumes "distinct (map gp_id ps)"
  shows "writeHands H ps
       = map (\<lambda>p. p\<lparr>hand := (case H (userId p) of None \<Rightarrow> hand p | Some h \<Rightarrow> h)\<rparr>) ps"
  unfolding writeHands_def fold_write[OF assms]
  by (rule map_cong[OF refl]) (simp add: find_gp_id_unique[OF assms])

lemma exchangeStep_receiver:
  assumes "List.find (\<lambda>s. sel_fromUserId s = fromUserId p) sels = Some sel"
    and "length (sel_cardIds sel) = count_of p" "1 \<le> count_of p"
  shows "\<exists>h. exchangeStep sels p H (toUserId p) = Some h \<and> h \<noteq> []"
proof -
  from assms(2,3) have "sel_cardIds sel \<noteq> []" by auto
  with assms(1,2) show ?thesis by (simp add: exchangeStep_def Let_def)
qed

lemma exchange_last_receiver:
  assumes "pairs \<noteq> []" "allIn pairs sels" "1 \<le> count_of (last pairs)"
  shows "\<exists>h. fold (exchangeStep sels) pairs H (toUserId (last pairs)) = Some h \<and> h \<noteq> []"
proof -
  from assms(1) have sp: "pairs = butlast pairs @ [last pairs]" by simp
  have "last pairs \<in> set pairs" using assms(1) by simp
  with assms(2) obtain sel where
    sel: "List.find (\<lambda>s. sel_fromUserId s = fromUserId (last pairs)) sels = Some sel"
      "length (sel_cardIds sel) = count_of (last pairs)"
    unfolding allIn_def list_all_iff by (auto split: option.splits)
  have "fold (exchangeStep sels) pairs H
      = exchangeStep sels (last pairs) (fold (exchangeStep sels) (butlast pairs) H)"
    by (subst sp) simp
  with exchangeStep_receiver[OF sel assms(3)] show ?thesis by simp
qed

text \<open>The two outcomes of an accepted submission.\<close>

lemma applySubmit_open:
  assumes "applySubmit t gs pairs u cs now = Done t'"
    and "\<not> allIn pairs (recordSelection (exchangeSelections gs) u cs)"
  shows "t' = t\<lparr>gameState := Some (gs\<lparr>exchangeSelections :=
                  Some (recordSelection (exchangeSelections gs) u cs)\<rparr>)\<rparr>"
  using assms unfolding applySubmit_def Let_def by simp

lemma applySubmit_complete:
  assumes "applySubmit t gs pairs u cs now = Done t'"
    and "allIn pairs (recordSelection (exchangeSelections gs) u cs)"
  shows "gamePlayers t' = writeHands
           (fold (exchangeStep (recordSelection (exchangeSelections gs) u cs)) pairs
              (handsByUserId (gamePlayers t))) (gamePlayers t)"
    and "gameState t' = Some (gs\<lparr>phase := Play, currentTurnUserId := roundLeaderId gs,
           turnNumber := turnNumber gs + 1, turnStartedAt := now, exchangePairs := None,
           exchangeSelections := None, roundLeaderId := None\<rparr>)"
  using assms unfolding applySubmit_def Let_def by auto

lemma inv_applySubmit:
  assumes inv: "inv t" and gs: "gameState t = Some gs" "phase gs = Exchange"
    and pairs: "pairs = (case exchangePairs gs of None \<Rightarrow> [] | Some ps \<Rightarrow> ps)"
    and ap: "applySubmit t gs pairs u cs now = Done t'"
  shows "inv t'"
proof -
  let ?ps = "gamePlayers t"
  let ?sels = "recordSelection (exchangeSelections gs) u cs"
  note d = invD[OF inv gs(1)]
  note ie = d(8)[OF gs(2), unfolded inv_exchange_def]
  show ?thesis
  proof (cases "allIn pairs ?sels")
    case False
    note t' = applySubmit_open[OF ap False]
    have "inv_exchange ?ps (gs\<lparr>exchangeSelections := Some ?sels\<rparr>)"
      using ie unfolding inv_exchange_def by simp
    then show ?thesis
      unfolding t' using d(1-5) gs(2)
      by (intro invI[where gs = "gs\<lparr>exchangeSelections := Some ?sels\<rparr>"]) simp_all
  next
    case True
    note c = applySubmit_complete[OF ap True]
    let ?H = "fold (exchangeStep ?sels) pairs (handsByUserId ?ps)"
    let ?f = "\<lambda>p. p\<lparr>hand := (case ?H (userId p) of None \<Rightarrow> hand p | Some h \<Rightarrow> h)\<rparr>"
    have rows: "gamePlayers t' = map ?f ?ps"
      using c(1) writeHands_rows[OF d(2)] by simp
    have uids: "map userId (gamePlayers t') = map userId ?ps" unfolding rows by simp
    have ids: "map gp_id (gamePlayers t') = map gp_id ?ps" unfolding rows by simp
    have uset: "userId ` set (gamePlayers t') = userId ` set ?ps"
      using uids by (metis set_map)
    from ie pairs obtain w where
      e: "passedUserIds gs = []" "finishedOrder gs = None" "lastPlayedCount gs = 0"
        "pairs \<noteq> []" "roundLeaderId gs = Some w" "w \<in> userId ` set ?ps"
        "toUserId (last pairs) \<in> userId ` set ?ps" "toUserId (last pairs) \<noteq> w"
        "1 \<le> count_of (last pairs)"
      by auto
    from exchange_last_receiver[OF e(4) True e(9)] obtain h where
      h: "?H (toUserId (last pairs)) = Some h" "h \<noteq> []" by blast
    from e(7) obtain pl where pl: "pl \<in> set ?ps" "userId pl = toUserId (last pairs)" by auto
    have plin: "?f pl \<in> set (gamePlayers t')"
      unfolding rows set_map by (rule imageI[OF pl(1)])
    have plrow: "?f pl \<in> set (gamePlayers t')" "hand (?f pl) \<noteq> []" "userId (?f pl) \<noteq> w"
      using plin pl(2) h e(8) by simp_all
    let ?gs' = "gs\<lparr>phase := Play, currentTurnUserId := roundLeaderId gs,
           turnNumber := turnNumber gs + 1, turnStartedAt := now, exchangePairs := None,
           exchangeSelections := None, roundLeaderId := None\<rparr>"
    have hold: "2 \<le> holders (gamePlayers t')
          \<or> (\<forall>p\<in>set (gamePlayers t'). Some w = Some (userId p) \<longrightarrow> hand p = [])"
    proof (cases "\<forall>p\<in>set (gamePlayers t'). userId p = w \<longrightarrow> hand p = []")
      case True
      then show ?thesis by auto
    next
      case False
      then obtain pw where pw: "pw \<in> set (gamePlayers t')" "userId pw = w" "hand pw \<noteq> []"
        by blast
      with plrow have "pw \<noteq> ?f pl" by auto
      from two_in_filter[OF pw(1) plrow(1) this, of "\<lambda>p. hand p \<noteq> []"] pw(3) plrow(2)
      show ?thesis by (simp add: holders_def)
    qed
    have play: "inv_play (gamePlayers t') ?gs'"
      unfolding inv_play_def using e(1,2,3,5) hold by simp
    show ?thesis
    proof (rule invI[where gs = ?gs'])
      show "gameState t' = Some ?gs'" by (rule c(2))
      show "distinct (map userId (gamePlayers t'))" using uids d(1) by simp
      show "distinct (map gp_id (gamePlayers t'))" using ids d(2) by simp
      show "2 \<le> length (gamePlayers t')" using rows d(3) by simp
      show "\<And>c. currentTurnUserId ?gs' = Some c \<Longrightarrow> c \<in> userId ` set (gamePlayers t')"
        using e(5,6) uset by simp
      show "\<And>v. lastPlayedBy ?gs' = Some v \<Longrightarrow> v \<in> userId ` set (gamePlayers t')"
        using d(5) uset by simp
      show "phase ?gs' = Play \<Longrightarrow> inv_play (gamePlayers t') ?gs'" using play by simp
      show "phase ?gs' = RoundEnded \<Longrightarrow> inv_ended (gamePlayers t') ?gs'" by simp
      show "phase ?gs' = Exchange \<Longrightarrow> inv_exchange (gamePlayers t') ?gs'" by simp
    qed
  qed
qed

section \<open>Every reachable table satisfies the invariant\<close>

lemma below_Finite: "below d (Finite q) \<longleftrightarrow> d < nat \<lceil>q\<rceil>"
proof -
  have "d < nat \<lceil>q\<rceil> \<longleftrightarrow> int d < \<lceil>q\<rceil>" by (rule zless_nat_eq_int_zless)
  also have "\<dots> \<longleftrightarrow> of_int (int d) < q" by (rule less_ceiling_iff)
  finally show ?thesis by (simp add: below_def)
qed

lemma buildDeck_loop_Finite:
  "buildDeck_loop (Finite q) d deck = Some (deck @ concat (replicate (nat \<lceil>q\<rceil> - d) oneDeck))"
proof (induction "nat \<lceil>q\<rceil> - d" arbitrary: d deck)
  case 0
  then show ?case by (subst buildDeck_loop.simps) (simp add: below_Finite)
next
  case (Suc k)
  then have lt: "d < nat \<lceil>q\<rceil>" and k: "k = nat \<lceil>q\<rceil> - (d + 1)" by linarith+
  have r: "nat \<lceil>q\<rceil> - d = Suc (nat \<lceil>q\<rceil> - (d + 1))" using lt by linarith
  show ?case
    by (subst buildDeck_loop.simps) (simp add: below_Finite lt Suc.hyps(1)[OF k] r del: One_nat_def)
qed

lemma buildDeck_loop_Infinity: "buildDeck_loop Infinity d deck = None"
proof -
  have "buildDeck_loop x d deck = Some y \<Longrightarrow> x \<noteq> Infinity" for x y
    by (rule buildDeck_loop.raw_induct[where P = "\<lambda>x d deck y. x \<noteq> Infinity"])
       (auto simp: below_def split: if_splits)
  then show ?thesis by (cases "buildDeck_loop Infinity d deck") auto
qed

lemma buildDeck_Finite: "buildDeck (Finite q) = Some (concat (replicate (nat \<lceil>q\<rceil>) oneDeck))"
  by (simp add: buildDeck_def buildDeck_loop_Finite)

lemma buildDeck_NaN: "buildDeck NaN = Some []"
  unfolding buildDeck_def by (subst buildDeck_loop.simps) (simp add: below_def)

lemma buildDeck_NegInfinity: "buildDeck NegInfinity = Some []"
  unfolding buildDeck_def by (subst buildDeck_loop.simps) (simp add: below_def)

lemma buildDeck_Infinity: "buildDeck Infinity = None"
  by (simp add: buildDeck_def buildDeck_loop_Infinity)

lemma length_oneDeck: "length oneDeck = 52"
  by (simp add: oneDeck_def RANKS_def SUITS_def)

lemma length_decks: "length (concat (replicate k oneDeck)) = 52 * k"
  by (induction k) (simp_all add: length_oneDeck)

lemma buildDeck_length:
  assumes "buildDeck x = Some deck"
  shows "\<exists>k. length deck = 52 * k"
proof (cases x)
  case (Finite q)
  with assms have "deck = concat (replicate (nat \<lceil>q\<rceil>) oneDeck)"
    by (simp add: buildDeck_Finite)
  then show ?thesis using length_decks by blast
next
  case NaN
  with assms show ?thesis by (simp add: buildDeck_NaN)
next
  case Infinity
  with assms show ?thesis by (simp add: buildDeck_Infinity)
next
  case NegInfinity
  with assms show ?thesis by (simp add: buildDeck_NegInfinity)
qed

lemma startGame_Inr:
  assumes "startGame slk rnd now = Some (Inr t)"
  obtains room deck where "sl_room slk = Some room" "2 \<le> length (sl_members slk)"
    "buildDeck (max_one (case room_deckCount room of None \<Rightarrow> Finite 1 | Some d \<Rightarrow> d)) = Some deck"
    "t = dealGame (sl_members slk) deck rnd now"
  using assms unfolding startGame_def Let_def
  by (auto split: option.splits if_splits)

lemma concat_Nil_nth: "concat xs = [] \<Longrightarrow> i < length xs \<Longrightarrow> xs ! i = []"
  by (metis concat_eq_Nil_conv nth_mem)

lemma inv_deal:
  assumes n2: "2 \<le> length members"
    and dk: "length fullDeck = 52 * k"
    and dm: "distinct (map m_userId members)"
  shows "inv (dealGame members fullDeck rnd now)"
proof -
  define t where "t = dealGame members fullDeck rnd now"
  define n where "n = length members"
  define deck where "deck = shuffleArray rnd fullDeck"
  define hands where "hands = distributeEvenly deck n"
  define sm where "sm = sort_key (\<lambda>m. case m_seatIndex m of None \<Rightarrow> 999 | Some i \<Rightarrow> i)
      members"
  define row where "row = (\<lambda>i. \<lparr>gp_id = i, userId = m_userId (sm ! i),
                            seatIndex = i, hand = hands ! i\<rparr>)"
  define gs0 where "gs0 = \<lparr>
                   currentTurnUserId = Some (m_userId (sm ! 0)),
                   turnNumber = 0, turnStartedAt = now, discardPile = [], phase = Play,
                   lastPlayedCount = 0, lastPlayedRank = None, lastPlayedBy = None,
                   passedUserIds = [], finishedOrder = None, roundLoserId = None,
                   exchangePairs = None, exchangeSelections = None, roundLeaderId = None\<rparr>"
  have lsm: "length sm = n" by (simp add: sm_def n_def)
  have t': "gameState t = Some gs0" "gamePlayers t = map row [0..<n]"
    unfolding t_def dealGame_def Let_def gs0_def row_def hands_def deck_def sm_def n_def
    by simp_all
  have n2': "2 \<le> n" using n2 n_def by simp
  have "map userId (map row [0..<n]) = map (\<lambda>i. m_userId (sm ! i)) [0..<n]"
    by (simp add: row_def)
  also have "\<dots> = map m_userId (map (\<lambda>i. sm ! i) [0..<n])" by simp
  also have "\<dots> = map m_userId sm" using lsm map_nth[of sm] by simp
  finally have uids: "map userId (gamePlayers t) = map m_userId sm" using t'(2) by simp
  have "mset (map m_userId sm) = mset (map m_userId members)"
    by (simp add: sm_def)
  then have du: "distinct (map userId (gamePlayers t))"
    using dm uids by (metis mset_eq_imp_distinct_iff)
  have "map gp_id (map row [0..<n]) = [0..<n]" by (simp add: row_def map_idI)
  then have did: "distinct (map gp_id (gamePlayers t))" using t'(2) by simp
  have len: "length (gamePlayers t) = n" using t'(2) by simp
  have i0: "0 < n" and i1: "1 < n" using n2' by linarith+
  have r0: "row 0 \<in> set (gamePlayers t)" and r1: "row 1 \<in> set (gamePlayers t)"
    using i0 i1 t'(2) by auto
  have cur: "m_userId (sm ! 0) \<in> userId ` set (gamePlayers t)"
  proof -
    have "userId (row 0) = m_userId (sm ! 0)" by (simp add: row_def)
    with r0 show ?thesis by (metis imageI)
  qed
  have ld: "length deck = 52 * k" by (simp add: deck_def shuffleArray_length dk)
  have play: "inv_play (gamePlayers t) gs0"
  proof (cases k)
    case 0
    with ld have de: "deck = []" by simp
    have "concat hands = deck"
      unfolding hands_def by (rule distributeEvenly_concat[OF i0])
    then have ch: "concat hands = []" unfolding de .
    have lh: "length hands = n" by (simp add: hands_def distributeEvenly_length)
    have "\<And>i. i < n \<Longrightarrow> hands ! i = []"
      by (rule concat_Nil_nth[OF ch]) (simp add: lh)
    then have "\<forall>p\<in>set (gamePlayers t). hand p = []"
      unfolding t'(2) by (auto simp: row_def)
    then show ?thesis unfolding inv_play_def by (simp add: gs0_def)
  next
    case (Suc k')
    with ld have "2 \<le> length deck" by simp
    from distributeEvenly_first_two[OF this n2']
    have h01: "hand (row 0) \<noteq> []" "hand (row 1) \<noteq> []"
      by (simp_all add: row_def hands_def)
    have ne: "row 0 \<noteq> row 1" by (simp add: row_def)
    have h2: "2 \<le> holders (gamePlayers t)"
      unfolding holders_def by (rule two_in_filter[OF r0 r1 ne h01])
    show ?thesis unfolding inv_play_def using h2 by (simp add: gs0_def)
  qed
  have "inv t"
  proof (rule invI[where gs = gs0])
    show "gameState t = Some gs0" by (rule t'(1))
    show "distinct (map userId (gamePlayers t))" by (rule du)
    show "distinct (map gp_id (gamePlayers t))" by (rule did)
    show "2 \<le> length (gamePlayers t)" using len n2' by simp
    show "\<And>c. currentTurnUserId gs0 = Some c \<Longrightarrow> c \<in> userId ` set (gamePlayers t)"
      using cur by (simp add: gs0_def)
    show "\<And>v. lastPlayedBy gs0 = Some v \<Longrightarrow> v \<in> userId ` set (gamePlayers t)"
      by (simp add: gs0_def)
    show "phase gs0 = Play \<Longrightarrow> inv_play (gamePlayers t) gs0" using play by simp
    show "phase gs0 = RoundEnded \<Longrightarrow> inv_ended (gamePlayers t) gs0" by (simp add: gs0_def)
    show "phase gs0 = Exchange \<Longrightarrow> inv_exchange (gamePlayers t) gs0" by (simp add: gs0_def)
  qed
  then show ?thesis by (simp add: t_def)
qed

lemma inv_start:
  assumes st: "startGame slk rnd now = Some (Inr t)"
    and dm: "distinct (map m_userId (sl_members slk))"
  shows "inv t"
proof -
  from st obtain room deck where room: "sl_room slk = Some room"
    and n2: "2 \<le> length (sl_members slk)"
    and bd: "buildDeck (max_one (case room_deckCount room of None \<Rightarrow> Finite 1 | Some d \<Rightarrow> d))
        = Some deck"
    and t: "t = dealGame (sl_members slk) deck rnd now"
    by (rule startGame_Inr)
  from buildDeck_length[OF bd] obtain k where "length deck = 52 * k" by blast
  from inv_deal[OF n2 this dm] show ?thesis by (simp add: t)
qed

lemma reachable_inv: "reachable t \<Longrightarrow> inv t"
proof (induction rule: reachable.induct)
  case (r_start slk rnd now t)
  then show ?case by (rule inv_start)
next
  case (r_play t lk cardIds now t')
  from playCards_Done[OF r_play.hyps(2)] obtain u gs gp newHand where
    "gameState t = Some gs" "phase gs = Play" "currentTurnUserId gs = Some u"
    "List.find (\<lambda>p. userId p = u) (gamePlayers t) = Some gp"
    "removeEach (hand gp) cardIds = Some newHand" "cardIds \<noteq> []"
    "applyPlay t gs gp u cardIds newHand now = Done t'" by blast
  with r_play.IH show ?case by (rule inv_applyPlay)
next
  case (r_pass t lk now t')
  from pass_Done[OF r_pass.hyps(2)] obtain u gs where
    "gameState t = Some gs" "phase gs = Play" "currentTurnUserId gs = Some u"
    "lastPlayedCount gs \<noteq> 0" "applyPass t gs u now = Done t'" by blast
  with r_pass.IH show ?case by (rule inv_applyPass)
next
  case (r_restart t lk rnd now t')
  from restartRound_Done[OF r_restart.hyps(2)] obtain gs where
    "gameState t = Some gs" "phase gs = RoundEnded" "applyRestart t gs rnd now = Done t'"
    by blast
  with r_restart.IH show ?case by (rule inv_applyRestart)
next
  case (r_submit t lk cardIds now t')
  from submit_Done[OF r_submit.hyps(2)] obtain u gs where
    "gameState t = Some gs" "phase gs = Exchange"
    "applySubmit t gs (case exchangePairs gs of None \<Rightarrow> [] | Some ps \<Rightarrow> ps) u cardIds now = Done t'"
    by blast
  with r_submit.IH show ?case by (rule inv_applySubmit[OF _ _ _ refl])
qed

section \<open>The handlers on the sample game\<close>

lemmas game_defs = sample_members_def sample_lobby_def sample_rnd_def game_rows_def
  game_state0_def game_start_def game_shed_def game_led_def game_passed_def
  game_passed_twice_def request_def

lemma single_deck: "buildDeck (max_one (Finite 1)) = Some oneDeck"
  by (simp add: max_one_def buildDeck_Finite)

lemma game_deal_eval: "dealGame (sl_members sample_lobby) oneDeck sample_rnd 0 = game_start"
  unfolding game_defs by code_simp

lemma game_start_eval: "startGame sample_lobby sample_rnd 0 = Some (Inr game_start)"
proof -
  have "sl_room sample_lobby = Some \<lparr>room_in_progress = False, room_gameMode = ''presidents'',
      room_deckCount = Some (Finite 1)\<rparr>"
    "sl_user sample_lobby = Some 10" "sl_role sample_lobby = Some Admin"
    "length (sl_members sample_lobby) = 8"
    by (simp_all add: sample_lobby_def sample_members_def)
  then show ?thesis
    by (simp add: startGame_def single_deck game_deal_eval)
qed

lemma game_shed_eval:
  "playCards (request 10 Player) [''3C'', ''2S'', ''3S'', ''3D'', ''2D'', ''3H'', ''2H''] 1 game_start
     = Done game_shed"
  unfolding game_defs by code_simp

lemma game_led_eval: "playCards (request 10 Player) [''3C''] 1 game_start = Done game_led"
  unfolding game_defs by code_simp

lemma game_passed_eval: "pass (request 11 Player) 2 game_led = Done game_passed"
  unfolding game_defs by code_simp

lemma game_passed_twice_eval: "pass (request 12 Player) 3 game_passed = Done game_passed_twice"
  unfolding game_defs by code_simp

lemma reachable_game_start: "reachable game_start"
  by (rule r_start[OF game_start_eval]) (simp add: sample_lobby_def sample_members_def)

lemma reachable_game_led: "reachable game_led"
  by (rule r_play[OF reachable_game_start game_led_eval])

lemma reachable_game_passed: "reachable game_passed"
  by (rule r_pass[OF reachable_game_led game_passed_eval])

lemmas duel_defs = duel_lobby_def duel_rnd_def duel_other_hand_def duel_rows_def duel_start_def
  duel_script_def duel_pile_def duel_last_def duel_ended_def game_state0_def request_def

lemma duel_deal_eval: "dealGame (sl_members duel_lobby) oneDeck duel_rnd 0 = duel_start"
  unfolding duel_defs by code_simp

lemma duel_start_eval: "startGame duel_lobby duel_rnd 0 = Some (Inr duel_start)"
proof -
  have "sl_room duel_lobby = Some \<lparr>room_in_progress = False, room_gameMode = ''presidents'',
      room_deckCount = None\<rparr>"
    "sl_user duel_lobby = Some 20" "sl_role duel_lobby = Some Admin"
    "length (sl_members duel_lobby) = 2"
    by (simp_all add: duel_lobby_def)
  then show ?thesis
    by (simp add: startGame_def single_deck duel_deal_eval)
qed

lemma duel_last_eval: "run duel_start duel_script = Some duel_last"
  unfolding duel_defs by code_simp

lemma duel_ended_eval:
  "playCards (request 20 Player) [''8S'', ''8H''] 0 duel_last = Done duel_ended"
  unfolding duel_defs by code_simp

lemma run_reachable: "reachable t \<Longrightarrow> run t as = Some t' \<Longrightarrow> reachable t'"
proof (induction t as rule: run.induct)
  case (1 t)
  then show ?case by simp
next
  case (2 t u cs as)
  then show ?case
    by (cases "playCards (request u Player) cs 0 t") (auto intro: r_play)
next
  case (3 t u as)
  then show ?case
    by (cases "pass (request u Player) 0 t") (auto intro: r_pass)
qed

lemma reachable_duel_start: "reachable duel_start"
  by (rule r_start[OF duel_start_eval]) (simp add: duel_lobby_def)

lemma reachable_duel_last: "reachable duel_last"
  by (rule run_reachable[OF reachable_duel_start duel_last_eval])

section \<open>Claims about round end and passing\<close>

text \<open>
  C3. For a reachable table, an accepted play leaves the phase round-ended if and only if
  exactly one seat holds cards after the played cards are removed. When it does, that
  seat is stored as round loser, the finish order is the previous one followed by the
  actor and the loser, and the standing play (count, rank, author) is cleared.
\<close>

theorem round_end_iff:
  assumes "reachable t" and "playCards lk cardIds now t = Done t'"
    and "lk_user lk = Some u" and "gameState t = Some gs" and "gameState t' = Some gs'"
  shows "(phase gs' = RoundEnded \<longleftrightarrow> holders (gamePlayers t') = 1)
       \<and> (phase gs' = RoundEnded \<longrightarrow>
            (\<exists>l\<in>set (gamePlayers t'). hand l \<noteq> [] \<and> roundLoserId gs' = Some (userId l)
               \<and> finishedOrder gs' =
                   Some ((case finishedOrder gs of None \<Rightarrow> [] | Some f \<Rightarrow> f) @ [u, userId l]))
            \<and> lastPlayedCount gs' = 0 \<and> lastPlayedRank gs' = None \<and> lastPlayedBy gs' = None)"
proof -
  have inv: "inv t" using assms(1) by (rule reachable_inv)
  from playCards_Done[OF assms(2)] assms(3,4) obtain gp newHand where
    gs: "phase gs = Play" "currentTurnUserId gs = Some u"
    and gp: "List.find (\<lambda>p. userId p = u) (gamePlayers t) = Some gp"
    and rm: "removeEach (hand gp) cardIds = Some newHand" "cardIds \<noteq> []"
    and ap: "applyPlay t gs gp u cardIds newHand now = Done t'"
    by auto
  let ?ps = "gamePlayers t"
  let ?ps' = "patchPlayer (gp_id gp) (\<lambda>p. p\<lparr>hand := newHand\<rparr>) ?ps"
  note d = invD[OF inv assms(4)]
  note f = play_facts[OF inv assms(4) gs gp rm]
  note ip = d(6)[OF gs(1), unfolded inv_play_def]
  have rows: "gamePlayers t' = ?ps'" by (rule applyPlay_rows[OF ap])
  have useated: "u \<in> userId ` set ?ps" using f(1,2) by auto
  obtain r where r: "getNextPlayerToPlay ?ps u (passedUserIds gs)
          (map userId (filter (\<lambda>p. handLenAfter gp newHand p = 0) ?ps)) = Inr r"
    using getNext_Inr[OF useated] by blast
  let ?fo0 = "case finishedOrder gs of None \<Rightarrow> [] | Some f \<Rightarrow> f"
  have unot: "u \<notin> set ?fo0"
  proof (cases "finishedOrder gs")
    case None
    then show ?thesis by simp
  next
    case (Some fo)
    with ip have "\<forall>p\<in>set ?ps. userId p \<in> set fo \<longrightarrow> hand p = []" by blast
    with f(1,2,3) Some show ?thesis by auto
  qed
  show ?thesis
  proof (cases "newHand = [] \<and> holders ?ps' = 1")
    case True
    then have nh: "newHand = []" and h1: "holders ?ps' = 1" by auto
    from holders_one_find[OF h1] obtain l where
      l: "List.find (\<lambda>p. handLenAfter gp newHand p > 0) ?ps = Some l" by blast
    from find_Some_set[OF l] have lin: "l \<in> set ?ps" and lpos: "handLenAfter gp newHand l > 0"
      by auto
    from lpos nh have lne: "gp_id l \<noteq> gp_id gp" "hand l \<noteq> []"
      by (auto simp: handLenAfter_def split: if_splits)
    from lne(1) have lu: "userId l \<noteq> u"
      using same_user_same_row[OF d(1) lin f(1)] f(2) by auto
    with f(7) lin have lin': "l \<in> set (gamePlayers t')" using rows by simp
    note st = applyPlay_ended[OF ap r nh h1, unfolded l Let_def]
    from st assms(5) unot have
      "phase gs' = RoundEnded" "roundLoserId gs' = Some (userId l)"
      "finishedOrder gs' = Some (?fo0 @ [u, userId l])"
      "lastPlayedCount gs' = 0" "lastPlayedRank gs' = None" "lastPlayedBy gs' = None"
      by auto
    with h1 rows lin' lne(2) show ?thesis by auto
  next
    case False
    note st = applyPlay_continues[OF ap r False]
    from st assms(5) gs(1) have ph: "phase gs' = Play" by auto
    have "holders ?ps' \<noteq> 1"
    proof (cases "newHand = []")
      case True
      with False show ?thesis by simp
    next
      case False
      with f(4,5) show ?thesis by simp
    qed
    with ph rows show ?thesis by simp
  qed
qed

theorem round_end_iff_witness:
  "reachable duel_last
   \<and> playCards (request 20 Player) [''8S'', ''8H''] 0 duel_last = Done duel_ended
   \<and> map_option phase (gameState duel_ended) = Some RoundEnded
   \<and> holders (gamePlayers duel_ended) = 1
   \<and> map_option roundLoserId (gameState duel_ended) = Some (Some 21)
   \<and> map_option finishedOrder (gameState duel_ended) = Some (Some [20, 21])"
proof -
  have u: "lk_user (request 20 Player) = Some 20" by (simp add: request_def)
  obtain gs where g0: "gameState duel_last = Some gs"
    by (simp add: duel_last_def)
  obtain gs' where g1: "gameState duel_ended = Some gs'" "phase gs' = RoundEnded"
    "roundLoserId gs' = Some 21" "finishedOrder gs' = Some [20, 21]"
    by (simp add: duel_ended_def game_state0_def)
  from round_end_iff[OF reachable_duel_last duel_ended_eval u g0 g1(1)] g1(2)
  have "holders (gamePlayers duel_ended) = 1" by simp
  with reachable_duel_last duel_ended_eval g1 show ?thesis by simp
qed

lemma zero_card_users:
  assumes "distinct (map userId ps)" "p \<in> set ps"
  shows "userId p \<in> set (map userId (filter (\<lambda>q. length (hand q) = 0) ps)) \<longleftrightarrow> hand p = []"
proof
  assume "userId p \<in> set (map userId (filter (\<lambda>q. length (hand q) = 0) ps))"
  then obtain q where q: "q \<in> set ps" "hand q = []" "userId q = userId p" by auto
  from same_user_same_row[OF assms(1) q(1) assms(2) q(3)] q(2) show "hand p = []" by simp
next
  assume "hand p = []"
  with assms(2) show "userId p \<in> set (map userId (filter (\<lambda>q. length (hand q) = 0) ps))"
    by auto
qed

text \<open>
  C5. For a reachable table and an accepted pass by \<open>u\<close>, let \<open>next\<close> be the seat the
  rotation search returns with \<open>u\<close> added to the passed list. The search returns no seat
  exactly when every seat is \<open>u\<close>'s, has passed or holds no card. The table clears
  (the standing count becomes 0) if and only if there is no next seat, or the next seat
  is the author of the standing play and the number of distinct passers, \<open>u\<close> included,
  is at least the number of seats minus one. On clearing, the turn goes to the
  standing play's author, the standing play is reset and the passed list is emptied;
  otherwise the turn goes to the next seat and \<open>u\<close> is added to the passed list.
\<close>

theorem pass_clears_iff:
  assumes "reachable t" and "pass lk now t = Done t'"
    and "lk_user lk = Some u" and "gameState t = Some gs" and "gameState t' = Some gs'"
  shows "\<exists>next.
      getNextPlayerToPlay (gamePlayers t) u (passedUserIds gs @ [u])
        (map userId (filter (\<lambda>p. length (hand p) = 0) (gamePlayers t))) = Inr next
    \<and> (next = None \<longleftrightarrow>
         (\<forall>p\<in>set (gamePlayers t).
            userId p = u \<or> userId p \<in> set (passedUserIds gs) \<or> hand p = []))
    \<and> (lastPlayedCount gs' = 0 \<longleftrightarrow>
         next = None
         \<or> (next = lastPlayedBy gs
             \<and> length (gamePlayers t) \<le> card (set (passedUserIds gs) \<union> {u}) + 1))
    \<and> (lastPlayedCount gs' = 0 \<longrightarrow>
         currentTurnUserId gs' = lastPlayedBy gs \<and> lastPlayedRank gs' = None
         \<and> lastPlayedBy gs' = None \<and> passedUserIds gs' = [])
    \<and> (lastPlayedCount gs' \<noteq> 0 \<longrightarrow>
         currentTurnUserId gs' = next \<and> passedUserIds gs' = passedUserIds gs @ [u])"
proof -
  have inv: "inv t" using assms(1) by (rule reachable_inv)
  from pass_Done[OF assms(2)] assms(3,4) have
    gs: "phase gs = Play" "currentTurnUserId gs = Some u" "lastPlayedCount gs \<noteq> 0"
    and ap: "applyPass t gs u now = Done t'"
    by auto
  let ?ps = "gamePlayers t"
  let ?skip = "map userId (filter (\<lambda>p. length (hand p) = 0) ?ps)"
  note d = invD[OF inv assms(4)]
  note ip = d(6)[OF gs(1), unfolded inv_play_def]
  have useated: "u \<in> userId ` set ?ps" using d(4)[OF gs(2)] .
  obtain r where r: "getNextPlayerToPlay ?ps u (passedUserIds gs @ [u]) ?skip = Inr r"
    using getNext_Inr[OF useated] by blast
  have none: "r = None \<longleftrightarrow>
         (\<forall>p\<in>set ?ps. userId p = u \<or> userId p \<in> set (passedUserIds gs) \<or> hand p = [])"
  proof -
    have "r = None \<longleftrightarrow> (\<forall>p\<in>set ?ps. userId p = u \<or> userId p \<in> set (passedUserIds gs @ [u])
              \<or> userId p \<in> set ?skip)"
      using getNext_None_iff[OF useated, of "passedUserIds gs @ [u]" ?skip] r by simp
    also have "\<dots> \<longleftrightarrow> (\<forall>p\<in>set ?ps. userId p = u \<or> userId p \<in> set (passedUserIds gs)
              \<or> hand p = [])"
    proof (rule ball_cong[OF refl])
      fix p assume p: "p \<in> set ?ps"
      have z: "userId p \<in> set ?skip \<longleftrightarrow> hand p = []"
        by (rule zero_card_users[OF d(1) p])
      have a: "userId p \<in> set (passedUserIds gs @ [u])
                 \<longleftrightarrow> userId p \<in> set (passedUserIds gs) \<or> userId p = u" by auto
      show "(userId p = u \<or> userId p \<in> set (passedUserIds gs @ [u]) \<or> userId p \<in> set ?skip)
          \<longleftrightarrow> (userId p = u \<or> userId p \<in> set (passedUserIds gs) \<or> hand p = [])"
        unfolding z a by blast
    qed
    finally show ?thesis .
  qed
  have dp: "distinct (passedUserIds gs @ [u])" using ip gs(2) by auto
  have cardp: "card (set (passedUserIds gs) \<union> {u}) = length (passedUserIds gs @ [u])"
    using distinct_card[OF dp] by simp
  define clear where "clear \<longleftrightarrow> r = None \<or> (r = lastPlayedBy gs
                        \<and> int (length ?ps) - 1 \<le> int (length (passedUserIds gs @ [u])))"
  have clear_eq: "clear \<longleftrightarrow> r = None
         \<or> (r = lastPlayedBy gs \<and> length ?ps \<le> card (set (passedUserIds gs) \<union> {u}) + 1)"
    unfolding clear_def cardp by auto
  note c = applyPass_cases[OF ap r, folded clear_def]
  have post: "(lastPlayedCount gs' = 0 \<longleftrightarrow> r = None
         \<or> (r = lastPlayedBy gs \<and> length ?ps \<le> card (set (passedUserIds gs) \<union> {u}) + 1))
    \<and> (lastPlayedCount gs' = 0 \<longrightarrow>
         currentTurnUserId gs' = lastPlayedBy gs \<and> lastPlayedRank gs' = None
         \<and> lastPlayedBy gs' = None \<and> passedUserIds gs' = [])
    \<and> (lastPlayedCount gs' \<noteq> 0 \<longrightarrow>
         currentTurnUserId gs' = r \<and> passedUserIds gs' = passedUserIds gs @ [u])"
    unfolding clear_eq[symmetric]
  proof (cases clear)
    case True
    with c(2) assms(5) have "gs' = gs\<lparr>currentTurnUserId := lastPlayedBy gs, lastPlayedCount := 0,
               lastPlayedRank := None, lastPlayedBy := None, passedUserIds := [],
               turnNumber := turnNumber gs + 1, turnStartedAt := now\<rparr>" by simp
    with True show "(lastPlayedCount gs' = 0 \<longleftrightarrow> clear)
      \<and> (lastPlayedCount gs' = 0 \<longrightarrow>
         currentTurnUserId gs' = lastPlayedBy gs \<and> lastPlayedRank gs' = None
         \<and> lastPlayedBy gs' = None \<and> passedUserIds gs' = [])
      \<and> (lastPlayedCount gs' \<noteq> 0 \<longrightarrow>
         currentTurnUserId gs' = r \<and> passedUserIds gs' = passedUserIds gs @ [u])" by simp
  next
    case False
    with c(2) assms(5) have "gs' = gs\<lparr>currentTurnUserId := r, passedUserIds := passedUserIds gs @ [u],
               turnNumber := turnNumber gs + 1, turnStartedAt := now\<rparr>" by simp
    with False gs(3) show "(lastPlayedCount gs' = 0 \<longleftrightarrow> clear)
      \<and> (lastPlayedCount gs' = 0 \<longrightarrow>
         currentTurnUserId gs' = lastPlayedBy gs \<and> lastPlayedRank gs' = None
         \<and> lastPlayedBy gs' = None \<and> passedUserIds gs' = [])
      \<and> (lastPlayedCount gs' \<noteq> 0 \<longrightarrow>
         currentTurnUserId gs' = r \<and> passedUserIds gs' = passedUserIds gs @ [u])" by simp
  qed
  show ?thesis by (rule exI[of _ r]) (rule conjI[OF r conjI[OF none post]])
qed

theorem pass_clears_iff_witness:
  "reachable game_led \<and> pass (request 11 Player) 2 game_led = Done game_passed
   \<and> map_option lastPlayedCount (gameState game_passed) = Some 1
   \<and> map_option currentTurnUserId (gameState game_passed) = Some (Some 12)
   \<and> map_option passedUserIds (gameState game_passed) = Some [11]"
proof -
  have u: "lk_user (request 11 Player) = Some 11" by (simp add: request_def)
  obtain gs where g0: "gameState game_led = Some gs" "passedUserIds gs = []"
    by (simp add: game_led_def game_state0_def)
  obtain gs' where g1: "gameState game_passed = Some gs'" "lastPlayedCount gs' = 1"
    "currentTurnUserId gs' = Some 12"
    by (simp add: game_passed_def game_led_def game_state0_def)
  from pass_clears_iff[OF reachable_game_led game_passed_eval u g0(1) g1(1)] g1(2) g0(2)
  have "passedUserIds gs' = [11]" by auto
  with reachable_game_led game_passed_eval g1 show ?thesis by simp
qed

section \<open>Claims about passed seats\<close>

lemma quiet_step_reachable: "quiet_step s s' \<Longrightarrow> reachable s \<Longrightarrow> reachable s'"
  by (induction rule: quiet_step.induct) (auto intro: r_play r_pass)

text \<open>A step that leaves a play standing keeps the phase and every recorded passer.\<close>

lemma quiet_step_passed:
  assumes "quiet_step s s'" "inv s" "gameState s = Some gs"
  shows "\<exists>gs'. gameState s' = Some gs' \<and> phase gs' = Play
           \<and> set (passedUserIds gs) \<subseteq> set (passedUserIds gs')"
  using assms
proof (induction rule: quiet_step.induct)
  case (q_play lk cardIds now t t')
  from playCards_Done[OF q_play.hyps(1)] q_play.prems(2) obtain u gp newHand where
    g: "phase gs = Play" "currentTurnUserId gs = Some u"
    and gp: "List.find (\<lambda>p. userId p = u) (gamePlayers t) = Some gp"
    and ap: "applyPlay t gs gp u cardIds newHand now = Done t'"
    by auto
  from find_Some_set[OF gp] have useated: "u \<in> userId ` set (gamePlayers t)" by auto
  obtain r where r: "getNextPlayerToPlay (gamePlayers t) u (passedUserIds gs)
          (map userId (filter (\<lambda>p. handLenAfter gp newHand p = 0) (gamePlayers t))) = Inr r"
    using getNext_Inr[OF useated] by blast
  show ?case
  proof (cases "newHand = [] \<and>
      holders (patchPlayer (gp_id gp) (\<lambda>p. p\<lparr>hand := newHand\<rparr>) (gamePlayers t)) = 1")
    case True
    then have nh: "newHand = []"
      and h1: "holders (patchPlayer (gp_id gp) (\<lambda>p. p\<lparr>hand := newHand\<rparr>) (gamePlayers t)) = 1"
      by auto
    note st = applyPlay_ended[OF ap r nh h1]
    have "gameState t' \<noteq> None \<and> lastPlayedCount (the (gameState t')) = 0"
      unfolding st by simp
    with q_play.hyps(2) show ?thesis by (auto simp: standing_def)
  next
    case False
    note st = applyPlay_continues[OF ap r False]
    from st q_play.hyps(2) have nc: "\<not> (newHand = [] \<or> r = None)"
      by (auto simp: standing_def split: if_splits)
    with st g(1) show ?thesis by auto
  qed
next
  case (q_pass lk now t t')
  from pass_Done[OF q_pass.hyps(1)] q_pass.prems(2) obtain u where
    g: "phase gs = Play" "currentTurnUserId gs = Some u"
    and ap: "applyPass t gs u now = Done t'"
    by auto
  have useated: "u \<in> userId ` set (gamePlayers t)"
    using invD(4)[OF q_pass.prems(1,2) g(2)] .
  obtain r where r: "getNextPlayerToPlay (gamePlayers t) u (passedUserIds gs @ [u])
          (map userId (filter (\<lambda>p. length (hand p) = 0) (gamePlayers t))) = Inr r"
    using getNext_Inr[OF useated] by blast
  define clear where "clear \<longleftrightarrow> r = None \<or> (r = lastPlayedBy gs
       \<and> int (length (gamePlayers t)) - 1 \<le> int (length (passedUserIds gs @ [u])))"
  note c = applyPass_cases[OF ap r, folded clear_def]
  show ?case
  proof (cases clear)
    case True
    with c(2) q_pass.hyps(2) show ?thesis by (simp add: standing_def)
  next
    case False
    with c(2) g(1) show ?thesis by auto
  qed
qed

text \<open>
  C6. After an accepted pass by \<open>u\<close> on a reachable table that leaves a play standing,
  in every table reached from there by accepted plays and passes that each leave a play
  standing (the table never clears), \<open>u\<close> is still recorded as passed together with
  every passer recorded right after the pass, and the turn is not \<open>u\<close>'s: the rotation
  search never selects \<open>u\<close>.
\<close>

theorem passed_seat_skipped:
  assumes "reachable t0" and "pass lk now t0 = Done t1" and "lk_user lk = Some u"
    and "standing t1" and "rtranclp quiet_step t1 t"
  shows "\<exists>gs1 gs. gameState t1 = Some gs1 \<and> gameState t = Some gs
           \<and> set (passedUserIds gs1) \<subseteq> set (passedUserIds gs)
           \<and> u \<in> set (passedUserIds gs) \<and> currentTurnUserId gs \<noteq> Some u"
proof -
  have r1: "reachable t1" by (rule r_pass[OF assms(1,2)])
  have q0: "quiet_step t0 t1" by (rule q_pass[OF assms(2,4)])
  from reachable_inv[OF assms(1)] obtain gs0 where gs0: "gameState t0 = Some gs0"
    unfolding inv_def by blast
  from quiet_step_passed[OF q0 reachable_inv[OF assms(1)] gs0] obtain gs1 where
    gs1: "gameState t1 = Some gs1" "phase gs1 = Play" by blast
  have u1: "u \<in> set (passedUserIds gs1)"
  proof -
    from pass_Done[OF assms(2)] assms(3) gs0 have
      g: "currentTurnUserId gs0 = Some u" and ap: "applyPass t0 gs0 u now = Done t1" by auto
    have useated: "u \<in> userId ` set (gamePlayers t0)"
      using invD(4)[OF reachable_inv[OF assms(1)] gs0 g] .
    obtain r where r: "getNextPlayerToPlay (gamePlayers t0) u (passedUserIds gs0 @ [u])
          (map userId (filter (\<lambda>p. length (hand p) = 0) (gamePlayers t0))) = Inr r"
      using getNext_Inr[OF useated] by blast
    define clear where "clear \<longleftrightarrow> r = None \<or> (r = lastPlayedBy gs0
       \<and> int (length (gamePlayers t0)) - 1 \<le> int (length (passedUserIds gs0 @ [u])))"
    note c = applyPass_cases[OF ap r, folded clear_def]
    show ?thesis
    proof (cases clear)
      case True
      with c(2) assms(4) show ?thesis by (simp add: standing_def)
    next
      case False
      with c(2) gs1(1) show ?thesis by auto
    qed
  qed
  from assms(5) have "reachable t \<and> (\<exists>gs. gameState t = Some gs \<and> phase gs = Play
           \<and> set (passedUserIds gs1) \<subseteq> set (passedUserIds gs))"
  proof (induction rule: rtranclp_induct)
    case base
    with r1 gs1 show ?case by simp
  next
    case (step y z)
    then obtain gsy where y: "reachable y" "gameState y = Some gsy"
      "set (passedUserIds gs1) \<subseteq> set (passedUserIds gsy)" by blast
    from quiet_step_passed[OF step.hyps(2) reachable_inv[OF y(1)] y(2)] obtain gsz where
      "gameState z = Some gsz" "phase gsz = Play"
      "set (passedUserIds gsy) \<subseteq> set (passedUserIds gsz)" by blast
    with y(3) quiet_step_reachable[OF step.hyps(2) y(1)] show ?case by auto
  qed
  then obtain gs where t: "reachable t" "gameState t = Some gs" "phase gs = Play"
    "set (passedUserIds gs1) \<subseteq> set (passedUserIds gs)" by blast
  from invD(6)[OF reachable_inv[OF t(1)] t(2) t(3)]
  have "\<forall>c. currentTurnUserId gs = Some c \<longrightarrow> c \<notin> set (passedUserIds gs)"
    unfolding inv_play_def by blast
  with u1 t(4) have "currentTurnUserId gs \<noteq> Some u" by auto
  with gs1(1) t(2,4) u1 show ?thesis by auto
qed

theorem passed_seat_skipped_witness:
  "reachable game_led \<and> pass (request 11 Player) 2 game_led = Done game_passed
   \<and> standing game_passed \<and> rtranclp quiet_step game_passed game_passed_twice
   \<and> map_option passedUserIds (gameState game_passed_twice) = Some [11, 12]
   \<and> map_option currentTurnUserId (gameState game_passed_twice) \<noteq> Some (Some 11)"
proof -
  have u: "lk_user (request 11 Player) = Some 11" by (simp add: request_def)
  have s1: "standing game_passed"
    by (simp add: standing_def game_passed_def game_led_def game_state0_def)
  have s2: "standing game_passed_twice"
    by (simp add: standing_def game_passed_twice_def game_led_def game_state0_def)
  have q: "rtranclp quiet_step game_passed game_passed_twice"
    using q_pass[OF game_passed_twice_eval s2] by (rule r_into_rtranclp)
  from passed_seat_skipped[OF reachable_game_led game_passed_eval u s1 q]
  have "map_option currentTurnUserId (gameState game_passed_twice) \<noteq> Some (Some 11)"
    by auto
  moreover have "map_option passedUserIds (gameState game_passed_twice) = Some [11, 12]"
    by (simp add: game_passed_twice_def game_led_def game_state0_def)
  ultimately show ?thesis using reachable_game_led game_passed_eval s1 q by simp
qed

section \<open>The cards in the hands and the discard pile, action by action\<close>

lemma handCards_Cons: "handCards (p # ps) = mset (hand p) + handCards ps"
  by (simp add: handCards_def)

lemma handCards_patch:
  assumes "distinct (map gp_id ps)" "gp \<in> set ps"
  shows "handCards (patchPlayer (gp_id gp) (\<lambda>p. p\<lparr>hand := nh\<rparr>) ps) + mset (hand gp)
           = handCards ps + mset nh"
  using assms
proof (induction ps)
  case Nil
  then show ?case by simp
next
  case (Cons a ps)
  show ?case
  proof (cases "a = gp")
    case True
    with Cons.prems have "\<forall>p\<in>set ps. gp_id p \<noteq> gp_id gp" by (auto simp: image_iff)
    then have "patchPlayer (gp_id gp) (\<lambda>p. p\<lparr>hand := nh\<rparr>) ps = ps"
      by (auto simp: patchPlayer_def intro: map_idI)
    then have "patchPlayer (gp_id gp) (\<lambda>p. p\<lparr>hand := nh\<rparr>) (a # ps) = a\<lparr>hand := nh\<rparr> # ps"
      using True by (simp add: patchPlayer_def)
    with True show ?thesis by (simp add: handCards_Cons)
  next
    case False
    with Cons.prems have gp: "gp \<in> set ps" "distinct (map gp_id ps)" "gp_id a \<noteq> gp_id gp"
      by (auto simp: image_iff)
    have "patchPlayer (gp_id gp) (\<lambda>p. p\<lparr>hand := nh\<rparr>) (a # ps)
        = a # patchPlayer (gp_id gp) (\<lambda>p. p\<lparr>hand := nh\<rparr>) ps"
      using gp(3) by (simp add: patchPlayer_def)
    with Cons.IH[OF gp(2) gp(1)] show ?thesis by (simp add: handCards_Cons)
  qed
qed

text \<open>An accepted play takes exactly the played cards out of the hands.\<close>

lemma play_hands:
  assumes "distinct (map gp_id ps)" "gp \<in> set ps" "removeEach (hand gp) cs = Some newHand"
  shows "handCards (patchPlayer (gp_id gp) (\<lambda>p. p\<lparr>hand := newHand\<rparr>) ps) + mset cs
           = handCards ps"
proof -
  have sub: "mset cs \<subseteq># mset (hand gp)"
    using removeEach_Some_iff[of "hand gp" cs] assms(3) by simp
  have "mset newHand = mset (hand gp) - mset cs" by (rule removeEach_mset[OF assms(3)])
  with sub have e: "mset newHand + mset cs = mset (hand gp)" by simp
  from handCards_patch[OF assms(1,2), of newHand]
  have "handCards (patchPlayer (gp_id gp) (\<lambda>p. p\<lparr>hand := newHand\<rparr>) ps) + mset cs + mset newHand
      = handCards ps + mset newHand"
    by (simp add: e[symmetric] ac_simps)
  then show ?thesis by simp
qed

lemma play_cards:
  assumes inv: "inv t" and pl: "playCards lk cardIds now t = Done t'"
  shows "if standing t' \<or> map_option phase (gameState t') = Some RoundEnded
         then cardsOf t' = cardsOf t
         else cardsOf t' + mset cardIds + mset (discardOf t) = cardsOf t \<and> discardOf t' = []"
proof -
  from playCards_Done[OF pl] obtain u gs gp newHand where
    gs: "gameState t = Some gs" "phase gs = Play" "currentTurnUserId gs = Some u"
    and gp: "List.find (\<lambda>p. userId p = u) (gamePlayers t) = Some gp"
    and rm: "removeEach (hand gp) cardIds = Some newHand" "cardIds \<noteq> []"
    and ap: "applyPlay t gs gp u cardIds newHand now = Done t'"
    by blast
  let ?ps = "gamePlayers t"
  let ?ps' = "patchPlayer (gp_id gp) (\<lambda>p. p\<lparr>hand := newHand\<rparr>) ?ps"
  note d = invD[OF inv gs(1)]
  from find_Some_set[OF gp] have gpin: "gp \<in> set ?ps" and useated: "u \<in> userId ` set ?ps"
    by auto
  have rows: "gamePlayers t' = ?ps'" by (rule applyPlay_rows[OF ap])
  have hands: "handCards ?ps' + mset cardIds = handCards ?ps"
    by (rule play_hands[OF d(2) gpin rm(1)])
  obtain r where r: "getNextPlayerToPlay ?ps u (passedUserIds gs)
          (map userId (filter (\<lambda>p. handLenAfter gp newHand p = 0) ?ps)) = Inr r"
    using getNext_Inr[OF useated] by blast
  have d0: "discardOf t = discardPile gs" using gs(1) by (simp add: discardOf_def)
  show ?thesis
  proof (cases "newHand = [] \<and> holders ?ps' = 1")
    case True
    then have nh: "newHand = []" and h1: "holders ?ps' = 1" by auto
    note st = applyPlay_ended[OF ap r nh h1]
    have ph: "map_option phase (gameState t') = Some RoundEnded" unfolding st by simp
    have d1: "discardOf t' = discardPile gs @ cardIds" unfolding discardOf_def st by simp
    have "cardsOf t' = cardsOf t"
      unfolding cardsOf_def rows d1 d0 using hands by (simp add: ac_simps)
    with ph show ?thesis by auto
  next
    case False
    note st = applyPlay_continues[OF ap r False]
    have ph: "map_option phase (gameState t') \<noteq> Some RoundEnded"
      unfolding st using gs(2) by simp
    show ?thesis
    proof (cases "newHand = [] \<or> r = None")
      case True
      have ns: "\<not> standing t'" unfolding standing_def st using True by auto
      have d1: "discardOf t' = []" unfolding discardOf_def st using True by auto
      have "cardsOf t' + mset cardIds + mset (discardOf t) = cardsOf t"
        unfolding cardsOf_def rows d1 d0 using hands by (simp add: ac_simps)
      with ns ph d1 show ?thesis by auto
    next
      case nc: False
      have s: "standing t'" unfolding standing_def st using nc rm(2) by auto
      have d1: "discardOf t' = discardPile gs @ cardIds"
        unfolding discardOf_def st using nc by auto
      have "cardsOf t' = cardsOf t"
        unfolding cardsOf_def rows d1 d0 using hands by (simp add: ac_simps)
      with s show ?thesis by auto
    qed
  qed
qed

lemma pass_cards:
  assumes "pass lk now t = Done t'"
  shows "cardsOf t' = cardsOf t"
proof -
  from pass_Done[OF assms] obtain u gs where
    gs: "gameState t = Some gs" and ap: "applyPass t gs u now = Done t'" by blast
  from applyPass_frame[OF ap] gs show ?thesis
    by (auto simp: cardsOf_def discardOf_def)
qed

lemma restart_cards:
  assumes inv: "inv t" and rs: "restartRound lk rnd now t = Done t'"
  shows "cardsOf t' = cardsOf t"
proof -
  from restartRound_Done[OF rs] obtain gs where
    gs: "gameState t = Some gs" "phase gs = RoundEnded"
    and ap: "applyRestart t gs rnd now = Done t'" by blast
  note d = invD[OF inv gs(1)]
  from d(7)[OF gs(2), unfolded inv_ended_def] obtain fo where
    fo: "finishedOrder gs = Some fo" "distinct fo" "set fo \<subseteq> userId ` set (gamePlayers t)"
    by blast
  note fc = finish_order_complete[OF fo(2,3) d(1)]
  have n1: "1 \<le> length (gamePlayers t)" using d(3) by linarith
  have focond: "\<forall>f. finishedOrder gs = Some f \<longrightarrow> length f = length (gamePlayers t)
               \<longrightarrow> distinct f \<and> set f = userId ` set (gamePlayers t)"
    using fo(1,2) fc(2) by auto
  note deal = restart_deal[OF ap d(1) d(2) n1 focond]
  from applyRestart_state[OF ap] have "discardOf t' = []"
    by (auto simp: discardOf_def Let_def)
  with deal(1) gs(1) show ?thesis by (simp add: cardsOf_def discardOf_def)
qed

lemma open_submit_cards:
  assumes "submitExchangeSelection lk cardIds now t = Done t'"
    and "map_option phase (gameState t') = Some Exchange"
  shows "cardsOf t' = cardsOf t"
proof -
  from submit_Done[OF assms(1)] obtain u gs where
    gs: "gameState t = Some gs" "phase gs = Exchange"
    and ap: "applySubmit t gs (case exchangePairs gs of None \<Rightarrow> [] | Some ps \<Rightarrow> ps) u cardIds now = Done t'"
    by blast
  from assms(2) obtain gs1 where gs1: "gameState t' = Some gs1" "phase gs1 = Exchange" by auto
  from applySubmit_pending[OF ap gs1] gs(1) show ?thesis
    by (simp add: cardsOf_def discardOf_def)
qed

text \<open>The table of a new game holds exactly the assembled decks, all in the hands.\<close>

lemma deal_cards:
  assumes n2: "2 \<le> length members"
  shows "cardsOf (dealGame members fullDeck rnd now) = mset fullDeck
       \<and> discardOf (dealGame members fullDeck rnd now) = []"
proof -
  define t where "t = dealGame members fullDeck rnd now"
  define n where "n = length members"
  define deck where "deck = shuffleArray rnd fullDeck"
  define hands where "hands = distributeEvenly deck n"
  have d0: "discardOf t = []" unfolding t_def dealGame_def Let_def discardOf_def by simp
  have "map hand (gamePlayers t) = map (\<lambda>i. hands ! i) [0..<n]"
    unfolding t_def dealGame_def Let_def hands_def deck_def n_def by (simp add: comp_def)
  also have "\<dots> = hands"
    using map_nth[of hands] by (simp add: hands_def distributeEvenly_length)
  finally have "handCards (gamePlayers t) = mset (concat hands)" by (simp add: handCards_def)
  also have "concat hands = deck"
    unfolding hands_def by (rule distributeEvenly_concat) (use n2 n_def in linarith)
  finally have "cardsOf t = mset fullDeck"
    by (simp add: cardsOf_def d0 deck_def shuffleArray_mset)
  with d0 show ?thesis by (simp add: t_def)
qed

lemma start_cards:
  assumes "startGame slk rnd now = Some (Inr t)"
  shows "\<exists>room deck. sl_room slk = Some room
     \<and> buildDeck (max_one (case room_deckCount room of None \<Rightarrow> Finite 1 | Some d \<Rightarrow> d))
         = Some deck
     \<and> cardsOf t = mset deck \<and> discardOf t = []"
proof -
  from assms obtain room deck where room: "sl_room slk = Some room"
    and n2: "2 \<le> length (sl_members slk)"
    and bd: "buildDeck (max_one (case room_deckCount room of None \<Rightarrow> Finite 1 | Some d \<Rightarrow> d))
        = Some deck"
    and t: "t = dealGame (sl_members slk) deck rnd now"
    by (rule startGame_Inr)
  from deal_cards[OF n2, of deck rnd now] room bd show ?thesis unfolding t by blast
qed

section \<open>The claim about the conservation of cards\<close>

lemma cardsOf_size:
  "size (cardsOf t) = length (concat (map hand (gamePlayers t))) + length (discardOf t)"
  by (simp add: cardsOf_def handCards_def)

text \<open>
  What each accepted action does to the cards in the hands and the discard pile of a
  reachable table. A pass, a restart and a submission that leaves the exchange open keep
  them, and so does a play that leaves a play standing or ends the round: the played
  cards move from the hand to the pile, and the pile is kept when a pass clears the
  table. Only a play that clears the table without ending the round stores an empty
  pile.
\<close>

lemma cards_by_action:
  assumes "reachable t"
  shows "(pass lk now t = Done t' \<longrightarrow> cardsOf t' = cardsOf t)
       \<and> (restartRound lk rnd now t = Done t' \<longrightarrow> cardsOf t' = cardsOf t)
       \<and> (submitExchangeSelection lk cardIds now t = Done t' \<longrightarrow>
            map_option phase (gameState t') = Some Exchange \<longrightarrow> cardsOf t' = cardsOf t)
       \<and> (playCards lk cardIds now t = Done t' \<longrightarrow>
            (if standing t' \<or> map_option phase (gameState t') = Some RoundEnded
             then cardsOf t' = cardsOf t
             else cardsOf t' + mset cardIds + mset (discardOf t) = cardsOf t
                  \<and> discardOf t' = []))"
proof -
  have inv: "inv t" using assms by (rule reachable_inv)
  have a: "pass lk now t = Done t' \<longrightarrow> cardsOf t' = cardsOf t"
    using pass_cards by blast
  have b: "restartRound lk rnd now t = Done t' \<longrightarrow> cardsOf t' = cardsOf t"
    using restart_cards[OF inv] by blast
  have c: "submitExchangeSelection lk cardIds now t = Done t' \<longrightarrow>
            map_option phase (gameState t') = Some Exchange \<longrightarrow> cardsOf t' = cardsOf t"
    using open_submit_cards by blast
  have d: "playCards lk cardIds now t = Done t' \<longrightarrow>
            (if standing t' \<or> map_option phase (gameState t') = Some RoundEnded
             then cardsOf t' = cardsOf t
             else cardsOf t' + mset cardIds + mset (discardOf t) = cardsOf t
                  \<and> discardOf t' = [])"
    using play_cards[OF inv] by blast
  from a b c d show ?thesis by (intro conjI)
qed

text \<open>
  The deck count is clamped from below and never rounded: a room whose deck count is 1.5
  starts with two decks, 104 cards.
\<close>

lemma fractional_deck_count:
  "\<exists>t. startGame (sample_lobby\<lparr>sl_room := Some \<lparr>room_in_progress = False,
            room_gameMode = ''presidents'', room_deckCount = Some (Finite (3 / 2))\<rparr>\<rparr>) rnd now
          = Some (Inr t)
       \<and> size (cardsOf t) = 104"
proof -
  have c: "\<lceil>3 / 2 :: rat\<rceil> = 2" by (rule ceiling_unique) simp_all
  have bd: "buildDeck (max_one (Finite (3 / 2))) = Some (oneDeck @ oneDeck)"
    by (simp add: max_one_def buildDeck_Finite c numeral_2_eq_2)
  have n: "2 \<le> length (sl_members sample_lobby)"
    by (simp add: sample_lobby_def sample_members_def)
  have "startGame (sample_lobby\<lparr>sl_room := Some \<lparr>room_in_progress = False,
            room_gameMode = ''presidents'', room_deckCount = Some (Finite (3 / 2))\<rparr>\<rparr>) rnd now
          = Some (Inr (dealGame (sl_members sample_lobby) (oneDeck @ oneDeck) rnd now))"
    using n by (simp add: startGame_def bd sample_lobby_def)
  moreover have "size (cardsOf (dealGame (sl_members sample_lobby) (oneDeck @ oneDeck) rnd now))
      = 104"
    using deal_cards[OF n, of "oneDeck @ oneDeck" rnd now] by (simp add: length_oneDeck)
  ultimately show ?thesis by blast
qed

text \<open>
  C1 says that on every reachable table the hands and the discard pile together hold the
  assembled deck pool, 52 cards for each deck, after every accepted action. The play
  handler breaks this. When an accepted play clears the table without ending the round
  (the actor emptied the hand, or no other seat can follow), line 400 stores
  \<open>discardPile: clearTable ? [] : discardPile\<close>, and the pile together with the cards
  just played is gone from the table, although a pass that clears the table keeps the
  pile, the round-ending play keeps it, and \<open>restartRound\<close> reassembles the deck from
  the hands and the pile. The sample game of eight seats and one deck shows it:
  \<open>startGame\<close> deals 52 cards; the first play, in which user 10 sheds all seven cards
  of the hand, is accepted and leaves 45 cards in the hands and an empty pile.
\<close>

theorem cards_lost_on_clearing_play:
  "startGame sample_lobby sample_rnd 0 = Some (Inr game_start)
   \<and> reachable game_start
   \<and> size (cardsOf game_start) = 1 * 52
   \<and> playCards (request 10 Player) [''3C'', ''2S'', ''3S'', ''3D'', ''2D'', ''3H'', ''2H''] 1 game_start
       = Done game_shed
   \<and> size (cardsOf game_shed) = 45
   \<and> discardOf game_shed = []"
proof -
  have "size (cardsOf game_start) = 1 * 52"
    unfolding cardsOf_size
    by (simp add: discardOf_def game_start_def game_state0_def game_rows_def)
  moreover have "size (cardsOf game_shed) = 45"
    unfolding cardsOf_size
    by (simp add: discardOf_def game_shed_def game_state0_def game_rows_def)
  moreover have "discardOf game_shed = []"
    by (simp add: discardOf_def game_shed_def game_state0_def)
  ultimately show ?thesis using game_start_eval reachable_game_start game_shed_eval by simp
qed

text \<open>
  A submission that completes the exchange filters the giver's hand by the set of
  selected identifiers while the selection itself is appended to the receiver's hand, so
  a selection that repeats an identifier adds a card: in the sample exchange of four
  seats, user 11 holds one 5 of clubs and gives it twice.
\<close>

lemma exchange_repeated_card_eval:
  "submitExchangeSelection (request 11 Player) [''5C'', ''5C''] 9 sample_exchange4 = Done
     \<lparr>gameState = Some (sample_state\<lparr>currentTurnUserId := Some 11, turnNumber := 5,
        turnStartedAt := 9, discardPile := [], lastPlayedCount := 0, lastPlayedRank := None,
        lastPlayedBy := None, passedUserIds := []\<rparr>),
      gamePlayers =
        [\<lparr>gp_id = 0, userId = 11, seatIndex = 0, hand = [''9D'', ''3S'', ''4S'']\<rparr>,
         \<lparr>gp_id = 1, userId = 12, seatIndex = 1, hand = [''6D'']\<rparr>,
         \<lparr>gp_id = 2, userId = 13, seatIndex = 2, hand = [''KH'']\<rparr>,
         \<lparr>gp_id = 3, userId = 14, seatIndex = 3, hand = [''5C'', ''5C'']\<rparr>]\<rparr>"
  unfolding sample_exchange4_def sample_state_def request_def by code_simp

lemma exchange_repeated_card_example:
  "isDone (submitExchangeSelection (request 11 Player) [''5C'', ''5C''] 9 sample_exchange4)
   \<and> size (cardsOf sample_exchange4) = 6
   \<and> size (cardsOf (tableOf
        (submitExchangeSelection (request 11 Player) [''5C'', ''5C''] 9 sample_exchange4))) = 7"
  unfolding exchange_repeated_card_eval cardsOf_size
  by (simp add: isDone_def tableOf_def discardOf_def sample_exchange4_def sample_state_def)

end
